theory Spec2Isabelle
  imports
    Main
    "HOL-Library.Word"
    "HOL-Library.AList"
    "HOL-Library.Char_ord"
    "HOL-Library.List_Lexorder"
begin

section \<open>Python values the scan works with\<close>

subsection \<open>Formatting of numbers\<close>

text \<open>
  The digit characters of \<^verbatim>\<open>format(n, "x")\<close>: \<^verbatim>\<open>0\<close>..\<^verbatim>\<open>9\<close> are the
  code points 48..57 and \<^verbatim>\<open>a\<close>..\<^verbatim>\<open>f\<close> are 97..102.
\<close>

definition hex_digit :: "nat \<Rightarrow> char" where
  "hex_digit d = (if d < 10 then char_of (48 + d) else char_of (87 + d))"

fun format_x :: "nat \<Rightarrow> string" where
  "format_x n = (if n < 16 then [hex_digit n] else format_x (n div 16) @ [hex_digit (n mod 16)])"

declare format_x.simps [simp del]

text \<open>Zero padding on the left up to a minimal width, as the \<^verbatim>\<open>0w\<close> of a format spec does.\<close>

definition zero_pad :: "nat \<Rightarrow> string \<Rightarrow> string" where
  "zero_pad w s = replicate (w - length s) (CHR ''0'') @ s"

text \<open>\<^verbatim>\<open>"0x{:04x}".format(n)\<close> and \<^verbatim>\<open>"0x{:02x}".format(n)\<close>.\<close>

definition format_04x :: "nat \<Rightarrow> string" where
  "format_04x n = ''0x'' @ zero_pad 4 (format_x n)"

definition format_02x :: "nat \<Rightarrow> string" where
  "format_02x n = ''0x'' @ zero_pad 2 (format_x n)"

text \<open>\<^verbatim>\<open>str(n)\<close> of a non-negative integer.\<close>

fun str_nat :: "nat \<Rightarrow> string" where
  "str_nat n = (if n < 10 then [char_of (48 + n)] else str_nat (n div 10) @ [char_of (48 + n mod 10)])"

declare str_nat.simps [simp del]

subsection \<open>Dictionaries\<close>

text \<open>
  A Python \<^verbatim>\<open>dict\<close> keeps its keys in insertion order, and an assignment to a key that is
  already there replaces the value and leaves the key at its place. This is an association
  list with distinct keys under \<^const>\<open>AList.update\<close>.
\<close>

type_synonym ('k, 'v) dict = "('k \<times> 'v) list"

definition setitem :: "('k, 'v) dict \<Rightarrow> 'k \<Rightarrow> 'v \<Rightarrow> ('k, 'v) dict" where
  "setitem d k v = AList.update k v d"

text \<open>\<^verbatim>\<open>OrderedDict(pairs)\<close> inserts the pairs one after the other.\<close>

definition OrderedDict :: "('k \<times> 'v) list \<Rightarrow> ('k, 'v) dict" where
  "OrderedDict ps = foldl (\<lambda>d (k, v). setitem d k v) [] ps"

text \<open>\<^verbatim>\<open>sorted(d.items(), key=lambda k: k[0])\<close>: a stable sort on the key.\<close>

definition sorted_items :: "('k::linorder, 'v) dict \<Rightarrow> ('k \<times> 'v) list" where
  "sorted_items d = sort_key fst d"

subsection \<open>Exceptions and outcomes\<close>

datatype exn =
  DeliveryError | TimeoutError | KeyError | ValueError | AttributeError | OverflowError

text \<open>
  What a call into the Zigbee library gives back once the retry decorator is through with it:
  an answer, or the exception it raises.
\<close>

datatype 'a call = Answer 'a | Fails exn

text \<open>
  What a function of the scan does: it returns a value, or an exception leaves it, or it is
  still waiting for an answer of the device when the answers that were given are used up.
\<close>

datatype 'a outcome = Returns 'a | Raises exn | Unanswered

fun and_then :: "'a outcome \<Rightarrow> ('a \<Rightarrow> 'b outcome) \<Rightarrow> 'b outcome" where
  "and_then (Returns x) f = f x"
| "and_then (Raises e) f = Raises e"
| "and_then Unanswered f = Unanswered"

subsection \<open>Attribute values\<close>

text \<open>
  A value read from the device is a byte string or something else; a Python \<^verbatim>\<open>str\<close> is
  its list of code points.
\<close>

datatype pyvalue = Bytes "8 word list" | Text "nat list" | Number int

text \<open>
  \<^verbatim>\<open>bytes.decode()\<close> with its defaults: strict UTF-8. A well-formed sequence is one to four
  bytes; overlong forms, surrogates and code points above 0x10FFFF are errors.
\<close>

definition cont :: "8 word \<Rightarrow> bool" where
  "cont b = (0x80 \<le> b \<and> b \<le> 0xBF)"

fun utf8_decode :: "8 word list \<Rightarrow> nat list option" where
  "utf8_decode [] = Some []"
| "utf8_decode (b # bs) =
     (if b < 0x80 then map_option ((#) (unat b)) (utf8_decode bs)
      else if 0xC2 \<le> b \<and> b \<le> 0xDF then
        (case bs of
           c1 # r \<Rightarrow>
             if cont c1
             then map_option ((#) ((unat b - 0xC0) * 64 + (unat c1 - 0x80))) (utf8_decode r)
             else None
         | _ \<Rightarrow> None)
      else if 0xE0 \<le> b \<and> b \<le> 0xEF then
        (case bs of
           c1 # c2 # r \<Rightarrow>
             if cont c1 \<and> cont c2 \<and> (b = 0xE0 \<longrightarrow> 0xA0 \<le> c1) \<and> (b = 0xED \<longrightarrow> c1 \<le> 0x9F)
             then map_option
               ((#) ((unat b - 0xE0) * 4096 + (unat c1 - 0x80) * 64 + (unat c2 - 0x80)))
               (utf8_decode r)
             else None
         | _ \<Rightarrow> None)
      else if 0xF0 \<le> b \<and> b \<le> 0xF4 then
        (case bs of
           c1 # c2 # c3 # r \<Rightarrow>
             if cont c1 \<and> cont c2 \<and> cont c3 \<and> (b = 0xF0 \<longrightarrow> 0x90 \<le> c1) \<and> (b = 0xF4 \<longrightarrow> c1 \<le> 0x8F)
             then map_option
               ((#) ((unat b - 0xF0) * 262144 + (unat c1 - 0x80) * 4096
                     + (unat c2 - 0x80) * 64 + (unat c3 - 0x80)))
               (utf8_decode r)
             else None
         | _ \<Rightarrow> None)
      else None)"

text \<open>The code points \<^verbatim>\<open>str.strip()\<close> removes: those for which \<^verbatim>\<open>str.isspace()\<close> holds.\<close>

definition isspace :: "nat \<Rightarrow> bool" where
  "isspace c =
     ((0x09 \<le> c \<and> c \<le> 0x0D) \<or> (0x1C \<le> c \<and> c \<le> 0x20) \<or> c = 0x85 \<or> c = 0xA0 \<or> c = 0x1680
      \<or> (0x2000 \<le> c \<and> c \<le> 0x200A) \<or> c = 0x2028 \<or> c = 0x2029 \<or> c = 0x202F \<or> c = 0x205F
      \<or> c = 0x3000)"

definition strip :: "nat list \<Rightarrow> nat list" where
  "strip s = rev (dropWhile isspace (rev (dropWhile isspace s)))"

text \<open>\<^verbatim>\<open>value.split(b"\x00")[0]\<close>: the bytes in front of the first null byte.\<close>

definition split0_head :: "8 word list \<Rightarrow> 8 word list" where
  "split0_head v = takeWhile (\<lambda>b. b \<noteq> 0) v"

text \<open>\<^verbatim>\<open>bytes.hex()\<close>: two digits for each byte.\<close>

definition bytes_hex :: "8 word list \<Rightarrow> string" where
  "bytes_hex v = concat (map (\<lambda>b. [hex_digit (unat b div 16), hex_digit (unat b mod 16)]) v)"

definition str_of :: "string \<Rightarrow> nat list" where
  "str_of s = map of_char s"

text \<open>
  Lines 151 to 155 of \<^verbatim>\<open>scan_device.py\<close>: a byte string becomes the text in front of its
  first null byte, stripped, and its hex digits when that text does not decode.
\<close>

fun decode_value :: "pyvalue \<Rightarrow> pyvalue" where
  "decode_value (Bytes v) =
     (case utf8_decode (split0_head v) of
        Some s \<Rightarrow> Text (strip s)
      | None \<Rightarrow> Text (str_of (bytes_hex v)))"
| "decode_value v = v"

text \<open>
  Reading hex digits back into bytes, the inverse the round trip is stated with: two digits
  for each byte, of either case.
\<close>

definition digit_val :: "nat \<Rightarrow> nat option" where
  "digit_val c =
     (if 48 \<le> c \<and> c \<le> 57 then Some (c - 48)
      else if 97 \<le> c \<and> c \<le> 102 then Some (c - 87)
      else if 65 \<le> c \<and> c \<le> 70 then Some (c - 55)
      else None)"

fun fromhex :: "nat list \<Rightarrow> 8 word list option" where
  "fromhex [] = Some []"
| "fromhex [c] = None"
| "fromhex (c # d # r) =
     (case (digit_val c, digit_val d, fromhex r) of
        (Some h, Some l, Some bs) \<Rightarrow> Some (of_nat (h * 16 + l) # bs)
      | _ \<Rightarrow> None)"

section \<open>Discovery\<close>

subsection \<open>The cluster and what it answers\<close>

text \<open>
  A discovery call answers with a completion flag and either a page of records or a bare
  status code.
\<close>

datatype 'r page = Records "'r list" | Status "8 word"

record attr_rec =
  attrid :: "16 word"
  data_type :: "8 word"
  acl :: "8 word"

text \<open>
  The tables of the Zigbee library the scan looks things up in. Of an entry of
  \<^verbatim>\<open>foundation.DATA_TYPES\<close> the scan reads \<^verbatim>\<open>__name__\<close> of the second and of the
  third component: each is the name of the class that is there, or \<open>None\<close> when what is
  there is not a class and has no such name. \<^verbatim>\<open>foundation.AttributeAccessControl\<close> of an
  access value is \<open>None\<close> where the constructor raises \<^verbatim>\<open>ValueError\<close>, and otherwise
  the \<^verbatim>\<open>name\<close> of the member, which a flag without a name has as \<^verbatim>\<open>None\<close>.
\<close>

record foundation =
  DATA_TYPES :: "8 word \<Rightarrow> (string option \<times> string option) option"
  AttributeAccessControl :: "8 word \<Rightarrow> string option option"

text \<open>
  A cluster object: its identity, its schema, and the answers of the device. The answers to
  the calls of one kind of discovery are listed in the order the calls are made, each as the
  retry decorator hands it on; the answer to a read depends on the ids that are read.
\<close>

record cluster =
  cluster_id :: "16 word"
  ep_attribute :: string
  attributes :: "16 word \<Rightarrow> (string \<times> string) option"
  server_commands :: "8 word \<Rightarrow> (string \<times> string list \<times> bool) option"
  client_commands :: "8 word \<Rightarrow> (string \<times> string list \<times> bool) option"
  attributes_extended_answers :: "(bool \<times> attr_rec page) call list"
  commands_received_answers :: "(bool \<times> 8 word page) call list"
  commands_generated_answers :: "(bool \<times> 8 word page) call list"
  read_attributes :: "16 word list \<Rightarrow> ((16 word, pyvalue) dict \<times> (16 word, 8 word) dict) call"

subsection \<open>The loop of the three discovery functions\<close>

text \<open>
  The \<^verbatim>\<open>while not done\<close> loop is the same in \<^verbatim>\<open>discover_attributes_extended\<close>,
  \<^verbatim>\<open>discover_commands_received\<close> and \<^verbatim>\<open>discover_commands_generated\<close>; they differ in
  the body of the inner \<^verbatim>\<open>for\<close> loop, which is the parameter \<open>body\<close> here. The state of
  the loop is the cursor (\<^verbatim>\<open>attr_id\<close>, \<^verbatim>\<open>cmd_id\<close>) and the dictionary \<^verbatim>\<open>result\<close>.

  A \<^verbatim>\<open>DeliveryError\<close> and a status in place of a page break the loop; any other exception
  of the call, and any exception of the body of the \<^verbatim>\<open>for\<close> loop, leaves the function.
  The function gives the start indices it asked for, in order, next to its outcome. When the
  answers are used up and the loop has not ended, the request it makes next is the last of
  these and the outcome is \<^const>\<open>Unanswered\<close>.
\<close>

text \<open>The \<^verbatim>\<open>for\<close> loop over the records of one page: it stops at the first exception.\<close>

fun for_each :: "('r \<Rightarrow> 's \<Rightarrow> 's outcome) \<Rightarrow> 'r list \<Rightarrow> 's \<Rightarrow> 's outcome" where
  "for_each body [] state = Returns state"
| "for_each body (r # rsp) state = and_then (body r state) (for_each body rsp)"

fun paginate ::
  "('r \<Rightarrow> nat \<times> 'd \<Rightarrow> (nat \<times> 'd) outcome) \<Rightarrow> (bool \<times> 'r page) call list \<Rightarrow> nat \<times> 'd
    \<Rightarrow> nat list \<times> 'd outcome" where
  "paginate body [] (cur, result) = ([cur], Unanswered)"
| "paginate body (Fails ex # answers) (cur, result) =
     ([cur], if ex = DeliveryError then Returns result else Raises ex)"
| "paginate body (Answer (done, Status st) # answers) (cur, result) = ([cur], Returns result)"
| "paginate body (Answer (done, Records rsp) # answers) (cur, result) =
     (case for_each body rsp (cur, result) of
        Returns state \<Rightarrow>
          if done then ([cur], Returns (snd state))
          else (case paginate body answers state of (asked, out) \<Rightarrow> (cur # asked, out))
      | Raises ex \<Rightarrow> ([cur], Raises ex)
      | Unanswered \<Rightarrow> ([cur], Unanswered))"

subsection \<open>Attributes\<close>

datatype type_desc = TypeNames string string | TypeCode string

record attr_entry =
  attribute_id :: string
  attribute_name :: string
  value_type :: type_desc
  access :: "string option"
  attribute_value :: "pyvalue option"

text \<open>
  Lines 124 to 128: the type of an attribute. When the table has the data type, the names
  of the two classes of its entry are read, and \<^verbatim>\<open>__name__\<close> of a component that is not
  a class raises \<^verbatim>\<open>AttributeError\<close>; when the table does not have it, the type is the
  hex code.
\<close>

definition attr_type_of :: "foundation \<Rightarrow> attr_rec \<Rightarrow> type_desc outcome" where
  "attr_type_of fnd attr_rec =
     (case DATA_TYPES fnd (data_type attr_rec) of
        Some (Some t1, Some t2) \<Rightarrow> Returns (TypeNames t1 t2)
      | Some _ \<Rightarrow> Raises AttributeError
      | None \<Rightarrow> Returns (TypeCode (format_02x (unat (data_type attr_rec)))))"

text \<open>
  Lines 121 to 139: the entry of one record of a page of attributes. The name is the decimal
  id when the schema does not have the attribute, and the access is \<^verbatim>\<open>"undefined"\<close>
  when the constructor raises \<^verbatim>\<open>ValueError\<close>.
\<close>

definition attr_entry_of :: "foundation \<Rightarrow> cluster \<Rightarrow> attr_rec \<Rightarrow> attr_entry outcome" where
  "attr_entry_of fnd cl attr_rec =
     (let attr_id = attrid attr_rec;
          attr_name = (case attributes cl attr_id of
                         Some (name, _) \<Rightarrow> name
                       | None \<Rightarrow> str_nat (unat attr_id))
      in and_then (attr_type_of fnd attr_rec) (\<lambda>attr_type.
           let acc = (case AttributeAccessControl fnd (acl attr_rec) of
                        Some name \<Rightarrow> name
                      | None \<Rightarrow> Some ''undefined'')
           in Returns \<lparr>attribute_id = format_04x (unat attr_id), attribute_name = attr_name,
                        value_type = attr_type, access = acc, attribute_value = None\<rparr>))"

text \<open>
  Lines 119 to 140: the body of the \<^verbatim>\<open>for\<close> loop. The cursor becomes the id of the
  record, the entry is stored under it, and the cursor goes up by one. An exception of the
  entry leaves the loop with nothing stored for the record.
\<close>

definition attr_body ::
  "foundation \<Rightarrow> cluster \<Rightarrow> attr_rec \<Rightarrow> nat \<times> (16 word, attr_entry) dict
    \<Rightarrow> (nat \<times> (16 word, attr_entry) dict) outcome" where
  "attr_body fnd cl attr_rec state =
     and_then (attr_entry_of fnd cl attr_rec) (\<lambda>entry.
       Returns (unat (attrid attr_rec) + 1, setitem (snd state) (attrid attr_rec) entry))"

text \<open>
  Lines 150 to 156: the values of one successful read are stored in their entries. An id
  that \<^verbatim>\<open>result\<close> does not have raises \<^verbatim>\<open>KeyError\<close>.
\<close>

fun store_values ::
  "(16 word, pyvalue) dict \<Rightarrow> (16 word, attr_entry) dict \<Rightarrow> (16 word, attr_entry) dict outcome"
  where
  "store_values [] result = Returns result"
| "store_values ((attr_id, v) # success) result =
     (case map_of result attr_id of
        None \<Rightarrow> Raises KeyError
      | Some entry \<Rightarrow>
          store_values success
            (setitem result attr_id (entry\<lparr>attribute_value := Some (decode_value v)\<rparr>)))"

text \<open>
  Lines 145 to 160: the ids are read four at a time. A \<^verbatim>\<open>DeliveryError\<close> of a read is
  logged and the loop goes on; any other exception leaves the function. The function gives
  the batches it asked for, in order, next to its outcome.
\<close>

function read_loop ::
  "cluster \<Rightarrow> 16 word list \<Rightarrow> (16 word, attr_entry) dict
    \<Rightarrow> 16 word list list \<times> (16 word, attr_entry) dict outcome" where
  "read_loop cl to_read result =
     (if take 4 to_read = [] then ([], Returns result)
      else
        (case read_attributes cl (take 4 to_read) of
           Fails ex \<Rightarrow>
             if ex = DeliveryError
             then (case read_loop cl (drop 4 to_read) result of
                     (asked, out) \<Rightarrow> (take 4 to_read # asked, out))
             else ([take 4 to_read], Raises ex)
         | Answer (success, failed) \<Rightarrow>
             (case store_values success result of
                Returns result' \<Rightarrow>
                  (case read_loop cl (drop 4 to_read) result' of
                     (asked, out) \<Rightarrow> (take 4 to_read # asked, out))
              | Raises ex \<Rightarrow> ([take 4 to_read], Raises ex)
              | Unanswered \<Rightarrow> ([take 4 to_read], Unanswered))))"
  by pat_completeness auto
termination
  by (relation "measure (\<lambda>(cl, to_read, result). length to_read)") auto

declare read_loop.simps [simp del]

text \<open>Lines 162 to 164: the entries in the order of their ids, under the formatted id.\<close>

definition attributes_report :: "(16 word, attr_entry) dict \<Rightarrow> (string, attr_entry) dict" where
  "attributes_report result =
     OrderedDict [(format_04x (unat a_id), entry).
                    a_id \<leftarrow> sort (map fst result), Some entry \<leftarrow> [map_of result a_id]]"

definition discover_attributes_extended ::
  "foundation \<Rightarrow> cluster \<Rightarrow> (string, attr_entry) dict outcome" where
  "discover_attributes_extended fnd cl =
     and_then (snd (paginate (attr_body fnd cl) (attributes_extended_answers cl) (0, [])))
       (\<lambda>result. and_then (snd (read_loop cl (map fst result) result))
          (\<lambda>result. Returns (attributes_report result)))"

subsection \<open>Commands\<close>

datatype cmd_field = S string | L "string list"

type_synonym cmd_entry = "(string, cmd_field) dict"

text \<open>
  Lines 196 to 201 and 241 to 246: name and arguments of a command from the schema, the id
  as a decimal and \<^verbatim>\<open>"not_in_zcl"\<close> when the schema does not have it.
\<close>

definition cmd_data ::
  "(8 word \<Rightarrow> (string \<times> string list \<times> bool) option) \<Rightarrow> 8 word \<Rightarrow> string \<times> cmd_field" where
  "cmd_data commands cmd_id =
     (case commands cmd_id of
        Some (cmd_name, cmd_args, _) \<Rightarrow> (cmd_name, L cmd_args)
      | None \<Rightarrow> (str_nat (unat cmd_id), S ''not_in_zcl''))"

text \<open>Lines 202 to 207: the entry of a command received.\<close>

definition received_entry :: "cluster \<Rightarrow> 8 word \<Rightarrow> cmd_entry" where
  "received_entry cl cmd_id =
     (case cmd_data (server_commands cl) cmd_id of
        (cmd_name, cmd_args) \<Rightarrow>
          OrderedDict
            [(''command_id'', S (format_02x (unat cmd_id))),
             (''command_name'', S cmd_name),
             (''command_arguments'', cmd_args)])"

text \<open>Lines 247 to 252: the entry of a command generated.\<close>

definition generated_entry :: "cluster \<Rightarrow> 8 word \<Rightarrow> cmd_entry" where
  "generated_entry cl cmd_id =
     (case cmd_data (client_commands cl) cmd_id of
        (cmd_name, cmd_args) \<Rightarrow>
          OrderedDict
            [(''command_id'', S (format_02x (unat cmd_id))),
             (''command_Name'', S cmd_name),
             (''command_args'', cmd_args)])"

text \<open>
  Lines 195 to 208 and 240 to 253: the body of the \<^verbatim>\<open>for\<close> loop. The loop variable is
  the cursor itself; the entry is stored under the formatted id and the cursor goes up by
  one.
\<close>

definition received_body ::
  "cluster \<Rightarrow> 8 word \<Rightarrow> nat \<times> (string, cmd_entry) dict \<Rightarrow> (nat \<times> (string, cmd_entry) dict) outcome"
  where
  "received_body cl cmd_id state =
     Returns (unat cmd_id + 1,
              setitem (snd state) (format_02x (unat cmd_id)) (received_entry cl cmd_id))"

definition generated_body ::
  "cluster \<Rightarrow> 8 word \<Rightarrow> nat \<times> (string, cmd_entry) dict \<Rightarrow> (nat \<times> (string, cmd_entry) dict) outcome"
  where
  "generated_body cl cmd_id state =
     Returns (unat cmd_id + 1,
              setitem (snd state) (format_02x (unat cmd_id)) (generated_entry cl cmd_id))"

text \<open>
  Both functions take \<^verbatim>\<open>is_server\<close> and use it for a local variable that is never read.
\<close>

definition discover_commands_received :: "cluster \<Rightarrow> bool \<Rightarrow> (string, cmd_entry) dict outcome" where
  "discover_commands_received cl is_server =
     and_then (snd (paginate (received_body cl) (commands_received_answers cl) (0, [])))
       (\<lambda>result. Returns (OrderedDict (sorted_items result)))"

definition discover_commands_generated :: "cluster \<Rightarrow> bool \<Rightarrow> (string, cmd_entry) dict outcome" where
  "discover_commands_generated cl is_server =
     and_then (snd (paginate (generated_body cl) (commands_generated_answers cl) (0, [])))
       (\<lambda>result. Returns (OrderedDict (sorted_items result)))"

section \<open>The report\<close>

text \<open>\<^verbatim>\<open>d.update(other)\<close> assigns the items of \<^verbatim>\<open>other\<close> one after the other.\<close>

definition update_dict :: "('k, 'v) dict \<Rightarrow> ('k \<times> 'v) list \<Rightarrow> ('k, 'v) dict" where
  "update_dict d items = foldl (\<lambda>d (k, v). setitem d k v) d items"

subsection \<open>One cluster\<close>

datatype cluster_field =
  CStr string
| CAttrs "(string, attr_entry) dict"
| CCmds "(string, cmd_entry) dict"

type_synonym cluster_report = "(string, cluster_field) dict"

text \<open>Lines 74 to 87. The values of the dictionary are computed in the order they are written.\<close>

definition scan_cluster :: "foundation \<Rightarrow> cluster \<Rightarrow> bool \<Rightarrow> cluster_report outcome" where
  "scan_cluster fnd cl is_server =
     (let cmds_gen = (if is_server then ''commands_generated'' else ''commands_received'');
          cmds_rec = (if is_server then ''commands_received'' else ''commands_generated'')
      in and_then (discover_attributes_extended fnd cl) (\<lambda>attrs.
         and_then (discover_commands_received cl is_server) (\<lambda>received.
         and_then (discover_commands_generated cl is_server) (\<lambda>generated.
           Returns (OrderedDict
             [(''cluster_id'', CStr (format_04x (unat (cluster_id cl)))),
              (''name'', CStr (ep_attribute cl)),
              (''attributes'', CAttrs attrs),
              (cmds_rec, CCmds received),
              (cmds_gen, CCmds generated)])))))"

subsection \<open>One endpoint\<close>

record endpoint =
  model :: "string option"
  manufacturer :: "string option"
  device_type :: "16 word"
  profile_id :: "16 word"
  in_clusters :: "cluster list"
  out_clusters :: "cluster list"

text \<open>
  The \<^verbatim>\<open>for\<close> loop of lines 51 to 58 and again of lines 62 to 69, over the clusters in
  the order of the endpoint's dictionary; \<open>is_server\<close> is what the loop passes on to
  \<^const>\<open>scan_cluster\<close>.
\<close>

fun scan_clusters ::
  "foundation \<Rightarrow> bool \<Rightarrow> cluster list \<Rightarrow> (string, cluster_report) dict
    \<Rightarrow> (string, cluster_report) dict outcome" where
  "scan_clusters fnd is_server [] clusters = Returns clusters"
| "scan_clusters fnd is_server (cl # cls) clusters =
     and_then (scan_cluster fnd cl is_server) (\<lambda>report.
       scan_clusters fnd is_server cls
         (setitem clusters (format_04x (unat (cluster_id cl))) report))"

text \<open>Lines 48 to 71. Both loops pass \<^verbatim>\<open>is_server=True\<close>.\<close>

definition scan_endpoint ::
  "foundation \<Rightarrow> endpoint \<Rightarrow> (string, (string, cluster_report) dict) dict outcome" where
  "scan_endpoint fnd ep =
     and_then (scan_clusters fnd True (in_clusters ep) []) (\<lambda>clusters.
       let result = setitem [] ''in_clusters'' (OrderedDict (sorted_items clusters))
       in and_then (scan_clusters fnd True (out_clusters ep) []) (\<lambda>clusters.
            Returns (setitem result ''out_clusters'' (OrderedDict (sorted_items clusters)))))"

subsection \<open>The device\<close>

text \<open>
  A device: \<open>ieee\<close> is its address as \<^verbatim>\<open>str\<close> renders it, and \<open>endpoints\<close> are the items
  of its dictionary of endpoints in their order.
\<close>

record device =
  ieee :: string
  nwk :: "16 word"
  endpoints :: "(nat \<times> endpoint) list"

datatype ep_field = EId nat | EStr string | EClusters "(string, cluster_report) dict"

type_synonym endpoint_report = "(string, ep_field) dict"

datatype dev_field = DStr string | DOpt "string option" | DEndpoints "endpoint_report list"

type_synonym device_report = "(string, dev_field) dict"

text \<open>
  The \<^verbatim>\<open>for\<close> loop of lines 30 to 42; its state is \<^verbatim>\<open>result\<close> and the list
  \<^verbatim>\<open>endpoints\<close>.
\<close>

fun scan_endpoints ::
  "foundation \<Rightarrow> (nat \<times> endpoint) list \<Rightarrow> device_report \<times> endpoint_report list
    \<Rightarrow> (device_report \<times> endpoint_report list) outcome" where
  "scan_endpoints fnd [] state = Returns state"
| "scan_endpoints fnd ((epid, ep) # items) (result, eps) =
     (if epid = 0 then scan_endpoints fnd items (result, eps)
      else
        (let result = setitem result ''model'' (DOpt (model ep));
             result = setitem result ''manufacturer'' (DOpt (manufacturer ep));
             ep_report = OrderedDict
               [(''id'', EId epid),
                (''device_type'', EStr (format_04x (unat (device_type ep)))),
                (''profile'', EStr (format_04x (unat (profile_id ep))))]
         in and_then (scan_endpoint fnd ep) (\<lambda>scanned.
              scan_endpoints fnd items
                (result, eps @ [update_dict ep_report (map (map_prod id EClusters) scanned)]))))"

text \<open>Lines 24 to 45.\<close>

definition scan_results :: "foundation \<Rightarrow> device \<Rightarrow> device_report outcome" where
  "scan_results fnd dev =
     (let result = OrderedDict
            [(''ieee'', DStr (ieee dev)), (''nwk'', DStr (format_04x (unat (nwk dev))))]
      in and_then (scan_endpoints fnd (endpoints dev) (result, [])) (\<lambda>(result, eps).
           Returns (setitem result ''endpoints'' (DEndpoints eps))))"

section \<open>The administrative commands\<close>

text \<open>
  What a command does to the world: the lines it logs and the calls it makes into the
  network, both in order.
\<close>

datatype level = DEBUG | WARNING | ERROR

datatype invocation =
  Mgmt_Leave_req "16 word" "8 word list" "8 word"
| IEEE_addr_req "16 word" "16 word" "8 word" "8 word"
| addTransientLinkKey "8 word list" "8 word list"
| permit nat
| Mgmt_NWK_Update_req "8 word list"
| getNetworkParameters

record io =
  logged :: "(level \<times> string) list"
  invoked :: "invocation list"

definition log_line :: "level \<Rightarrow> string \<Rightarrow> io \<Rightarrow> io" where
  "log_line lvl msg w = w\<lparr>logged := logged w @ [(lvl, msg)]\<rparr>"

text \<open>
  The application: the devices it knows, each by its IEEE address and its network address,
  and what the network answers to a call. Looking up a device that is not known raises
  \<^verbatim>\<open>KeyError\<close>.
\<close>

record app =
  devices :: "(8 word list \<times> 16 word) list"
  network :: "invocation \<Rightarrow> string call"

definition get_device_nwk :: "app \<Rightarrow> int \<Rightarrow> 16 word option" where
  "get_device_nwk a n = map_option snd (find (\<lambda>d. uint (snd d) = n) (devices a))"

definition get_device_ieee :: "app \<Rightarrow> 8 word list \<Rightarrow> 16 word option" where
  "get_device_ieee a addr = map_option snd (find (\<lambda>d. fst d = addr) (devices a))"

text \<open>A call into the network is recorded whether it answers or raises.\<close>

definition invoke :: "app \<Rightarrow> invocation \<Rightarrow> io \<Rightarrow> string call \<times> io" where
  "invoke a c w = (network a c, w\<lparr>invoked := invoked w @ [c]\<rparr>)"

text \<open>
  What the commands take from Python and the Zigbee library: \<^verbatim>\<open>int(data, base=16)\<close> and
  \<^verbatim>\<open>t.uint8_t(data)\<close>, \<open>None\<close> where they raise \<^verbatim>\<open>ValueError\<close>, and the bytes of
  \<^verbatim>\<open>t.Channels.ALL_CHANNELS.serialize()\<close>. The constructor \<^verbatim>\<open>t.uint8_t\<close> takes any
  integer; it is \<^verbatim>\<open>serialize\<close> that raises \<^verbatim>\<open>OverflowError\<close> for one that does not
  fit into a byte.
\<close>

record library =
  int_base16 :: "string \<Rightarrow> int option"
  uint8_t :: "string \<Rightarrow> int option"
  ALL_CHANNELS :: "8 word list"

definition serialize_uint8 :: "int \<Rightarrow> 8 word list option" where
  "serialize_uint8 n = (if 0 \<le> n \<and> n < 256 then Some [of_int n] else None)"

text \<open>
  Each command gives the exception that leaves it, if any, and the world after it. The
  arguments \<^verbatim>\<open>listener\<close> and \<^verbatim>\<open>cmd\<close> are read by none of them and \<^verbatim>\<open>service\<close> only
  goes into log lines; they are left out.
\<close>

text \<open>\<^verbatim>\<open>zdo.py\<close>, lines 11 to 22.\<close>

definition leave ::
  "library \<Rightarrow> app \<Rightarrow> 8 word list option \<Rightarrow> string option \<Rightarrow> io \<Rightarrow> exn option \<times> io" where
  "leave lib a ieee_arg data w =
     (case (ieee_arg, data) of
        (Some addr, Some (c # cs)) \<Rightarrow>
          (let w = log_line DEBUG ''running 'leave' command. Telling 0x%s to remove %s: %s'' w
           in case int_base16 lib (c # cs) of
                None \<Rightarrow> (Some ValueError, w)
              | Some parent \<Rightarrow>
                  (case get_device_nwk a parent of
                     None \<Rightarrow> (Some KeyError, w)
                   | Some parent_nwk \<Rightarrow>
                       (case invoke a (Mgmt_Leave_req parent_nwk addr 0x02) w of
                          (Fails ex, w) \<Rightarrow> (Some ex, w)
                        | (Answer res, w) \<Rightarrow> (None, log_line DEBUG ''0x%04x: Mgmt_Leave_req: %s'' w))))
      | _ \<Rightarrow> (None, log_line WARNING ''Incorrect parameters for 'zdo.leave' command: %s'' w))"

text \<open>\<^verbatim>\<open>zdo.py\<close>, lines 25 to 34.\<close>

definition ieee_ping ::
  "app \<Rightarrow> 8 word list option \<Rightarrow> string option \<Rightarrow> io \<Rightarrow> exn option \<times> io" where
  "ieee_ping a ieee_arg data w =
     (case ieee_arg of
        None \<Rightarrow> (None, log_line WARNING ''Incorrect parameters for 'ieee_ping' command: %s'' w)
      | Some addr \<Rightarrow>
          (case get_device_ieee a addr of
             None \<Rightarrow> (Some KeyError, w)
           | Some dev_nwk \<Rightarrow>
               (let w = log_line DEBUG ''running 'ieee_ping' command to 0x%s'' w
                in case invoke a (IEEE_addr_req dev_nwk dev_nwk 0x00 0x00) w of
                     (Fails ex, w) \<Rightarrow> (Some ex, w)
                   | (Answer res, w) \<Rightarrow> (None, log_line DEBUG ''0x%04x: IEEE_addr_req: %s'' w))))"

text \<open>
  \<^verbatim>\<open>zdo.py\<close>, lines 37 to 47. The node and the key are written into the function; it
  reads none of its arguments but \<^verbatim>\<open>app\<close>.
\<close>

definition join_with_code ::
  "app \<Rightarrow> 8 word list option \<Rightarrow> string option \<Rightarrow> io \<Rightarrow> exn option \<times> io" where
  "join_with_code a ieee_arg data w =
     (let node = [0x04, 0xcf, 0x8c, 0xdf, 0x3c, 0x75, 0xe1, 0xe7];
          link_key = map of_char ''ZigBeeAlliance09''
      in case invoke a (addTransientLinkKey node link_key) w of
           (Fails ex, w) \<Rightarrow> (Some ex, w)
         | (Answer res, w) \<Rightarrow>
             (let w = log_line DEBUG ''permit with key: %s'' w
              in case invoke a (permit 60) w of
                   (Fails ex, w) \<Rightarrow> (Some ex, w)
                 | (Answer res, w) \<Rightarrow> (None, w)))"

text \<open>\<^verbatim>\<open>zdo.py\<close>, lines 50 to 75.\<close>

definition update_nwk_id ::
  "library \<Rightarrow> app \<Rightarrow> 8 word list option \<Rightarrow> string option \<Rightarrow> io \<Rightarrow> exn option \<times> io" where
  "update_nwk_id lib a ieee_arg data w =
     (case data of
        None \<Rightarrow> (None, log_line ERROR ''Need NWK update id in the data'' w)
      | Some d \<Rightarrow>
          (case uint8_t lib d of
             None \<Rightarrow> (Some ValueError, w)
           | Some nwk_upd_id \<Rightarrow>
               (case serialize_uint8 nwk_upd_id of
                  None \<Rightarrow> (Some OverflowError, w)
                | Some upd \<Rightarrow>
                    (case invoke a
                            (Mgmt_NWK_Update_req
                               ([0xee] @ ALL_CHANNELS lib @ [0xFF] @ upd @ [0x00, 0x00])) w of
                       (Fails ex, w) \<Rightarrow> (Some ex, w)
                     | (Answer res, w) \<Rightarrow>
                         (case invoke a getNetworkParameters w of
                            (Fails ex, w) \<Rightarrow> (Some ex, w)
                          | (Answer res, w) \<Rightarrow>
                              (None, log_line DEBUG ''Network params: %s'' w))))))"

section \<open>Notions the theorems are stated with\<close>

text \<open>The digits of a number below \<open>16 ^ w\<close>, written with exactly \<open>w\<close> digits.\<close>

fun fixed_x :: "nat \<Rightarrow> nat \<Rightarrow> string" where
  "fixed_x 0 n = []"
| "fixed_x (Suc w) n = fixed_x w (n div 16) @ [hex_digit (n mod 16)]"

text \<open>
  An answer with a page and more to come, and an answer with the last page: the completion
  flag is false in the first and true in the second.
\<close>

definition more :: "'r list \<Rightarrow> (bool \<times> 'r page) call" where
  "more rsp = Answer (False, Records rsp)"

definition final :: "'r list \<Rightarrow> (bool \<times> 'r page) call" where
  "final rsp = Answer (True, Records rsp)"

text \<open>The last of the records with a given key, if there is one.\<close>

definition latest :: "('r \<Rightarrow> 'k) \<Rightarrow> 'r list \<Rightarrow> 'k \<Rightarrow> 'r option" where
  "latest key recs k = (case filter (\<lambda>r. key r = k) recs of [] \<Rightarrow> None | rs \<Rightarrow> Some (last rs))"

text \<open>
  The records the loop goes through: those of the pages up to the first page with the
  completion flag, or up to the first answer that is not a page.
\<close>

fun consumed :: "(bool \<times> 'r page) call list \<Rightarrow> 'r list" where
  "consumed [] = []"
| "consumed (Fails ex # answers) = []"
| "consumed (Answer (done, Status code) # answers) = []"
| "consumed (Answer (done, Records rsp) # answers) =
     rsp @ (if done then [] else consumed answers)"

text \<open>
  A dictionary that holds the records \<open>recs\<close>: its keys are the keys of the records, each
  once, and under a key is the entry of the last record with this key.
\<close>

definition stored :: "('r \<Rightarrow> 'k) \<Rightarrow> ('r \<Rightarrow> 'e outcome) \<Rightarrow> 'r list \<Rightarrow> ('k, 'e) dict \<Rightarrow> bool" where
  "stored key entry recs d =
     (distinct (map fst d) \<and> fst ` set d = key ` set recs
      \<and> (\<forall>k. map_option Returns (map_of d k) = map_option entry (latest key recs k)))"

text \<open>
  An attribute record whose type can be written: the table does not have its data type, or
  has it with a class in both places.
\<close>

definition resolved :: "foundation \<Rightarrow> attr_rec \<Rightarrow> bool" where
  "resolved fnd attr_rec =
     (case DATA_TYPES fnd (data_type attr_rec) of
        Some (t1, t2) \<Rightarrow> t1 \<noteq> None \<and> t2 \<noteq> None
      | None \<Rightarrow> True)"

text \<open>
  An answer at which the loop breaks: a delivery error after the retries, or a status in
  place of a page.
\<close>

fun breaks :: "(bool \<times> 'r page) call \<Rightarrow> bool" where
  "breaks (Fails ex) = (ex = DeliveryError)"
| "breaks (Answer (done, Status code)) = True"
| "breaks (Answer (done, Records rsp)) = False"

section \<open>A device for the examples\<close>

definition zcl :: foundation where
  "zcl = \<lparr>DATA_TYPES = (\<lambda>t. if t = 0x10 then Some (Some ''Bool'', Some ''Discrete'')
                            else if t = 0x20 then Some (Some ''uint8_t'', Some ''Analog'')
                            else if t = 0xFF then Some (Some ''Unknown'', None)
                            else None),
          AttributeAccessControl = (\<lambda>a. if a = 0 then Some None
                                        else if a = 1 then Some (Some ''READ'')
                                        else if a = 2 then Some (Some ''WRITE'')
                                        else None)\<rparr>"

definition attr :: "16 word \<Rightarrow> attr_rec" where
  "attr a = \<lparr>attrid = a, data_type = 0x20, acl = 0x01\<rparr>"

text \<open>
  A cluster that answers everything: two pages of attributes, the values of the first four
  of them, two pages of commands received and one page of commands generated.
\<close>

definition on_off :: cluster where
  "on_off =
     \<lparr>cluster_id = 0x0006,
      ep_attribute = ''on_off'',
      attributes = (\<lambda>a. if a = 0 then Some (''on_off'', ''Bool'') else None),
      server_commands = (\<lambda>c. if c = 0x00 then Some (''off'', [], False)
                              else if c = 0x01 then Some (''on'', [], False)
                              else if c = 0x42 then
                                Some (''on_with_timed_off'', [''uint8_t'', ''uint16_t''], False)
                              else None),
      client_commands = (\<lambda>c. None),
      attributes_extended_answers = [more [attr 0, attr 1, attr 2, attr 3], final [attr 4]],
      commands_received_answers = [more [0x42, 0x01], final [0x00]],
      commands_generated_answers = [final [0x00]],
      read_attributes = (\<lambda>ids. if ids = [0, 1, 2, 3]
                                then Answer ([(0, Number 1), (1, Bytes [0x6f, 0x6e, 0x00, 0xff]),
                                              (2, Number 0), (3, Number 0)], [])
                                else Fails DeliveryError)\<rparr>"

text \<open>A cluster whose second answer is a failure in each discovery, and whose reads time out.\<close>

definition basic :: cluster where
  "basic =
     \<lparr>cluster_id = 0x0000,
      ep_attribute = ''basic'',
      attributes = (\<lambda>a. if a = 4 then Some (''manufacturer'', ''CharacterString'') else None),
      server_commands = (\<lambda>c. if c = 0x00 then Some (''reset_fact_default'', [], False) else None),
      client_commands = (\<lambda>c. None),
      attributes_extended_answers = [more [attr 4, attr 5], Fails DeliveryError],
      commands_received_answers = [more [0x00], Answer (False, Status 0x86)],
      commands_generated_answers = [more [0x00], Fails DeliveryError],
      read_attributes = (\<lambda>ids. Fails TimeoutError)\<rparr>"

text \<open>A cluster whose second answer is a timeout in each discovery.\<close>

definition sleepy :: cluster where
  "sleepy =
     \<lparr>cluster_id = 0x0003,
      ep_attribute = ''identify'',
      attributes = (\<lambda>a. None),
      server_commands = (\<lambda>c. None),
      client_commands = (\<lambda>c. None),
      attributes_extended_answers = [more [attr 0], Fails TimeoutError],
      commands_received_answers = [more [0x00], Fails TimeoutError],
      commands_generated_answers = [more [0x00], Fails TimeoutError],
      read_attributes = (\<lambda>ids. Fails DeliveryError)\<rparr>"

text \<open>
  A cluster that reports one page with two attributes; the data type of the second is one
  that the table of the example has with a class in the first place only.
\<close>

definition odd :: cluster where
  "odd =
     \<lparr>cluster_id = 0x0005,
      ep_attribute = ''scenes'',
      attributes = (\<lambda>a. None),
      server_commands = (\<lambda>c. None),
      client_commands = (\<lambda>c. None),
      attributes_extended_answers
        = [final [attr 0, \<lparr>attrid = 1, data_type = 0xFF, acl = 0x01\<rparr>]],
      commands_received_answers = [final []],
      commands_generated_answers = [final []],
      read_attributes = (\<lambda>ids. Fails DeliveryError)\<rparr>"

text \<open>The entries of the five attributes of the first example, before their values are read.\<close>

definition uint8_entry :: "string \<Rightarrow> string \<Rightarrow> attr_entry" where
  "uint8_entry hex_id name =
     \<lparr>attribute_id = hex_id, attribute_name = name, value_type = TypeNames ''uint8_t'' ''Analog'',
      access = Some ''READ'', attribute_value = None\<rparr>"

definition discovered :: "(16 word, attr_entry) dict" where
  "discovered =
     [(0, uint8_entry ''0x0000'' ''on_off''), (1, uint8_entry ''0x0001'' ''1''),
      (2, uint8_entry ''0x0002'' ''2''), (3, uint8_entry ''0x0003'' ''3''),
      (4, uint8_entry ''0x0004'' ''4'')]"

text \<open>A list cut into consecutive groups of four, the last group being what is left.\<close>

function batches :: "'a list \<Rightarrow> 'a list list" where
  "batches xs = (if xs = [] then [] else take 4 xs # batches (drop 4 xs))"
  by pat_completeness auto
termination
  by (relation "measure length") auto

declare batches.simps [simp del]

text \<open>The example cluster with reads that time out.\<close>

definition timed_out :: cluster where
  "timed_out = on_off\<lparr>read_attributes := (\<lambda>ids. Fails TimeoutError)\<rparr>"

text \<open>
  A read that lets the loop go on: it fails with a delivery error, or it answers with values
  for ids that the dictionary has.
\<close>

fun tolerated :: "('k, 'e) dict \<Rightarrow> (('k, 'v) dict \<times> 'f) call \<Rightarrow> bool" where
  "tolerated result (Fails ex) = (ex = DeliveryError)"
| "tolerated result (Answer (success, failed)) = (fst ` set success \<subseteq> fst ` set result)"

text \<open>
  An application for the examples: one device, a network that answers every call, and the
  two conversions at the strings the examples use.
\<close>

definition net :: app where
  "net = \<lparr>devices = [([0x01, 0x02, 0x03, 0x04, 0x05, 0x06, 0x07, 0x08], 0x1234)],
          network = (\<lambda>c. Answer ''Status.SUCCESS'')\<rparr>"

definition py :: library where
  "py = \<lparr>int_base16 = (\<lambda>s. if s = ''1234'' then Some 0x1234 else None),
         uint8_t = (\<lambda>s. if s = ''5'' then Some 5 else if s = ''256'' then Some 256 else None),
         ALL_CHANNELS = [0x00, 0xF8, 0xFF, 0x07]\<rparr>"

definition quiet :: io where
  "quiet = \<lparr>logged = [], invoked = []\<rparr>"

text \<open>A cluster with nothing to discover, an endpoint and a device.\<close>

definition groups :: cluster where
  "groups =
     \<lparr>cluster_id = 0x0004,
      ep_attribute = ''groups'',
      attributes = (\<lambda>a. None),
      server_commands = (\<lambda>c. None),
      client_commands = (\<lambda>c. None),
      attributes_extended_answers = [final []],
      commands_received_answers = [final []],
      commands_generated_answers = [final []],
      read_attributes = (\<lambda>ids. Fails DeliveryError)\<rparr>"

definition lamp :: endpoint where
  "lamp = \<lparr>model = Some ''lamp'', manufacturer = Some ''acme'', device_type = 0x0100,
           profile_id = 0x0104, in_clusters = [on_off, groups], out_clusters = [groups]\<rparr>"

definition switch :: endpoint where
  "switch = \<lparr>model = Some ''switch'', manufacturer = None, device_type = 0x0000,
             profile_id = 0x0104, in_clusters = [], out_clusters = [groups]\<rparr>"

text \<open>
  A device with the endpoint 0 and two more, and a device that has the endpoint 0 only.
\<close>

definition fixture :: device where
  "fixture = \<lparr>ieee = ''00:0d:6f:00:0a:90:69:e7'', nwk = 0x1234,
              endpoints = [(0, switch), (1, lamp), (2, switch)]\<rparr>"

definition bare :: device where
  "bare = \<lparr>ieee = ''00:0d:6f:00:0a:90:69:e8'', nwk = 0x0000, endpoints = [(0, switch)]\<rparr>"

text \<open>The cluster report as \<^const>\<open>scan_cluster\<close> writes it for the role of a server.\<close>

definition server_report ::
  "cluster \<Rightarrow> (string, attr_entry) dict \<Rightarrow> (string, cmd_entry) dict \<Rightarrow> (string, cmd_entry) dict
    \<Rightarrow> cluster_report" where
  "server_report cl attrs received generated =
     [(''cluster_id'', CStr (format_04x (unat (cluster_id cl)))),
      (''name'', CStr (ep_attribute cl)),
      (''attributes'', CAttrs attrs),
      (''commands_received'', CCmds received),
      (''commands_generated'', CCmds generated)]"

text \<open>The endpoints of a device that are scanned: all but the endpoint 0.\<close>

definition scanned_endpoints :: "device \<Rightarrow> (nat \<times> endpoint) list" where
  "scanned_endpoints dev = filter (\<lambda>item. fst item \<noteq> 0) (endpoints dev)"

section \<open>Facts about the formatted ids\<close>

lemma hex_digit_less: "a < 16 \<Longrightarrow> b < 16 \<Longrightarrow> (hex_digit a < hex_digit b) = (a < b)"
  by (auto simp: hex_digit_def less_char_def)

lemma length_fixed_x [simp]: "length (fixed_x w n) = w"
  by (induction w arbitrary: n) auto

lemma hex_digit_0: "hex_digit 0 = CHR ''0''"
  by (simp add: hex_digit_def char_of_eq_iff)

lemma fixed_x_zero: "fixed_x w 0 = replicate w (CHR ''0'')"
  by (induction w) (simp_all add: hex_digit_0 replicate_append_same)

lemma div16_less: "n < 16 ^ Suc w \<Longrightarrow> n div 16 < (16::nat) ^ w"
  by (simp add: less_mult_imp_div_less mult.commute)

lemma length_format_x_le: "n < 16 ^ w \<Longrightarrow> 0 < w \<Longrightarrow> length (format_x n) \<le> w"
proof (induction w arbitrary: n)
  case 0 then show ?case by simp
next
  case (Suc w)
  show ?case
  proof (cases "n < 16")
    case True then show ?thesis by (simp add: format_x.simps [of n])
  next
    case False
    then have "0 < w" using Suc.prems by (cases w) auto
    then have "length (format_x (n div 16)) \<le> w"
      using Suc.IH div16_less [OF Suc.prems(1)] by simp
    with False show ?thesis by (simp add: format_x.simps [of n])
  qed
qed

lemma zero_pad_format_x: "n < 16 ^ w \<Longrightarrow> 0 < w \<Longrightarrow> zero_pad w (format_x n) = fixed_x w n"
proof (induction w arbitrary: n)
  case 0 then show ?case by simp
next
  case (Suc w)
  show ?case
  proof (cases "n < 16")
    case True
    then show ?thesis
      by (simp add: format_x.simps [of n] zero_pad_def fixed_x_zero)
  next
    case False
    then have w: "0 < w" using Suc.prems by (cases w) auto
    have d: "n div 16 < 16 ^ w" using div16_less [OF Suc.prems(1)] .
    have "length (format_x (n div 16)) \<le> w" using length_format_x_le [OF d w] .
    then have "zero_pad (Suc w) (format_x n)
               = zero_pad w (format_x (n div 16)) @ [hex_digit (n mod 16)]"
      using False by (simp add: format_x.simps [of n] zero_pad_def Suc_diff_le)
    then show ?thesis using Suc.IH [OF d w] by simp
  qed
qed

lemma snoc_less_snoc:
  fixes xs ys :: "'a::linorder list"
  shows "length xs = length ys \<Longrightarrow> (xs @ [a] < ys @ [b]) = (xs < ys \<or> xs = ys \<and> a < b)"
  by (induction xs ys rule: list_induct2) auto

lemma div_mod_less:
  "(a div 16 < b div 16 \<or> a div 16 = b div 16 \<and> a mod 16 < b mod 16) = ((a::nat) < b)"
proof -
  define qa ra qb rb
    where "qa = a div 16" and "ra = a mod 16" and "qb = b div 16" and "rb = b mod 16"
  have "a = 16 * qa + ra" "b = 16 * qb + rb" "ra < 16" "rb < 16"
    by (simp_all add: qa_def ra_def qb_def rb_def)
  then have "(qa < qb \<or> qa = qb \<and> ra < rb) = (a < b)" by arith
  then show ?thesis by (simp add: qa_def ra_def qb_def rb_def)
qed

lemma fixed_x_less:
  "a < 16 ^ w \<Longrightarrow> b < 16 ^ w \<Longrightarrow> (fixed_x w a < fixed_x w b) = (a < b)"
proof (induction w arbitrary: a b)
  case 0 then show ?case by simp
next
  case (Suc w)
  have da: "a div 16 < 16 ^ w" and db: "b div 16 < 16 ^ w"
    using Suc.prems by (simp_all add: div16_less)
  have inj: "(fixed_x w (a div 16) = fixed_x w (b div 16)) = (a div 16 = b div 16)"
  proof
    assume eq: "fixed_x w (a div 16) = fixed_x w (b div 16)"
    show "a div 16 = b div 16"
    proof (rule ccontr)
      assume "a div 16 \<noteq> b div 16"
      then consider "a div 16 < b div 16" | "b div 16 < a div 16" by linarith
      then show False
        using Suc.IH [OF da db] Suc.IH [OF db da] eq by cases auto
    qed
  qed simp
  have "(fixed_x (Suc w) a < fixed_x (Suc w) b)
        = (a div 16 < b div 16 \<or> a div 16 = b div 16 \<and> a mod 16 < b mod 16)"
    by (simp add: snoc_less_snoc Suc.IH [OF da db] inj hex_digit_less)
  then show ?case by (simp only: div_mod_less)
qed

lemma format_04x_less:
  "a < 65536 \<Longrightarrow> b < 65536 \<Longrightarrow> (format_04x a < format_04x b) = (a < b)"
  using fixed_x_less [of a 4 b] by (simp add: format_04x_def zero_pad_format_x [of _ 4])

lemma format_02x_less:
  "a < 256 \<Longrightarrow> b < 256 \<Longrightarrow> (format_02x a < format_02x b) = (a < b)"
  using fixed_x_less [of a 2 b] by (simp add: format_02x_def zero_pad_format_x [of _ 2])

lemma key04_less: "(format_04x (unat a) < format_04x (unat b)) = (a < b)" for a b :: "16 word"
proof -
  have "unat a < 65536" "unat b < 65536"
    using unsigned_less [of a] unsigned_less [of b] by simp_all
  then show ?thesis by (simp add: format_04x_less word_less_nat_alt)
qed

lemma key02_less: "(format_02x (unat a) < format_02x (unat b)) = (a < b)" for a b :: "8 word"
proof -
  have "unat a < 256" "unat b < 256"
    using unsigned_less [of a] unsigned_less [of b] by simp_all
  then show ?thesis by (simp add: format_02x_less word_less_nat_alt)
qed

lemma key04_eq: "(format_04x (unat a) = format_04x (unat b)) = (a = b)" for a b :: "16 word"
proof
  assume eq: "format_04x (unat a) = format_04x (unat b)"
  show "a = b"
  proof (rule ccontr)
    assume "a \<noteq> b"
    then consider "a < b" | "b < a" by (auto simp: neq_iff)
    then show False using key04_less [of a b] key04_less [of b a] eq by cases auto
  qed
qed simp

lemma key02_eq: "(format_02x (unat a) = format_02x (unat b)) = (a = b)" for a b :: "8 word"
proof
  assume eq: "format_02x (unat a) = format_02x (unat b)"
  show "a = b"
  proof (rule ccontr)
    assume "a \<noteq> b"
    then consider "a < b" | "b < a" by (auto simp: neq_iff)
    then show False using key02_less [of a b] key02_less [of b a] eq by cases auto
  qed
qed simp

lemma key04_le: "(format_04x (unat a) \<le> format_04x (unat b)) = (a \<le> b)" for a b :: "16 word"
  by (simp add: le_less key04_less key04_eq)

lemma key02_le: "(format_02x (unat a) \<le> format_02x (unat b)) = (a \<le> b)" for a b :: "8 word"
  by (simp add: le_less key02_less key02_eq)

section \<open>Facts about dictionaries\<close>

lemma map_of_setitem: "map_of (setitem d k v) = (map_of d)(k \<mapsto> v)"
  by (simp add: setitem_def update_conv')

lemma distinct_setitem: "distinct (map fst d) \<Longrightarrow> distinct (map fst (setitem d k v))"
  by (simp add: setitem_def distinct_update)

lemma keys_setitem: "fst ` set (setitem d k v) = insert k (fst ` set d)"
  by (simp add: setitem_def dom_update)

lemma setitem_new: "k \<notin> fst ` set d \<Longrightarrow> setitem d k v = d @ [(k, v)]"
  unfolding setitem_def by (induction d) auto

lemma setitem_keys_same: "k \<in> fst ` set d \<Longrightarrow> map fst (setitem d k v) = map fst d"
  unfolding setitem_def by (induction d) auto

lemma update_dict_append:
  "distinct (map fst (d @ items)) \<Longrightarrow> update_dict d items = d @ items"
proof (induction items arbitrary: d)
  case Nil then show ?case by (simp add: update_dict_def)
next
  case (Cons kv items)
  obtain k v where kv: "kv = (k, v)" by (cases kv)
  have new: "k \<notin> fst ` set d" using Cons.prems kv by auto
  have "update_dict d (kv # items) = update_dict (d @ [(k, v)]) items"
    using setitem_new [OF new] by (simp add: update_dict_def kv)
  also have "\<dots> = (d @ [(k, v)]) @ items"
    using Cons.prems kv by (intro Cons.IH) simp
  finally show ?case by (simp add: kv)
qed

lemma OrderedDict_distinct: "distinct (map fst ps) \<Longrightarrow> OrderedDict ps = ps"
  using update_dict_append [of "[]" ps] by (simp add: OrderedDict_def update_dict_def)

lemma map_insort_key: "map f (insort_key f x xs) = insort (f x) (map f xs)"
  by (induction xs) auto

lemma map_sort_key: "map f (sort_key f xs) = sort (map f xs)"
  by (induction xs) (auto simp: map_insort_key)

lemma keys_sorted_items: "map fst (sorted_items d) = sort (map fst d)"
  by (simp add: sorted_items_def map_sort_key)

lemma insort_map_mono:
  assumes "\<And>a b. (f a \<le> f b) = (a \<le> b)"
  shows "insort (f x) (map f xs) = map f (insort x xs)"
  by (induction xs) (auto simp: assms)

lemma sort_map_mono:
  assumes "\<And>a b. (f a \<le> f b) = (a \<le> b)"
  shows "sort (map f xs) = map f (sort xs)"
  by (induction xs) (auto simp: insort_map_mono [OF assms])

lemma sort_distinct_set: "distinct xs \<Longrightarrow> sort xs = sorted_list_of_set (set xs)"
  by (simp add: sorted_list_of_set_sort_remdups distinct_remdups_id)

lemma map_of_rev_latest:
  "map_of (rev (map (\<lambda>r. (key r, entry r)) recs)) k = map_option entry (latest key recs k)"
proof (induction recs rule: rev_induct)
  case Nil then show ?case by (simp add: latest_def)
next
  case (snoc r recs)
  then show ?case by (auto simp: latest_def split: list.splits)
qed

section \<open>Facts about the discovery loop\<close>

lemma and_then_Returns:
  "(and_then x f = Returns y) = (\<exists>v. x = Returns v \<and> f v = Returns y)"
  by (cases x) simp_all

lemma latest_last:
  "latest key recs k
   = (if filter (\<lambda>r. key r = k) recs = [] then None
      else Some (last (filter (\<lambda>r. key r = k) recs)))"
  by (cases "filter (\<lambda>r. key r = k) recs") (simp_all add: latest_def)

lemma latest_snoc:
  "latest key (recs @ [r]) k = (if key r = k then Some r else latest key recs k)"
  by (simp add: latest_last)

text \<open>Storing the records of a page one after the other.\<close>

lemma stored_empty: "stored key entry [] []"
  by (simp add: stored_def latest_def)

lemma stored_step:
  assumes "stored key entry recs d" and "entry r = Returns e"
  shows "stored key entry (recs @ [r]) (setitem d (key r) e)"
proof -
  have "distinct (map fst (setitem d (key r) e))"
    using assms(1) by (simp add: stored_def distinct_setitem)
  moreover have "fst ` set (setitem d (key r) e) = key ` set (recs @ [r])"
    using assms(1) by (auto simp: stored_def keys_setitem)
  moreover have "\<And>k. map_option Returns (map_of (setitem d (key r) e) k)
                     = map_option entry (latest key (recs @ [r]) k)"
    using assms by (simp add: stored_def map_of_setitem latest_snoc)
  ultimately show ?thesis by (simp add: stored_def)
qed

lemma for_each_append:
  "for_each body (xs @ ys) st = and_then (for_each body xs st) (for_each body ys)"
proof (induction xs arbitrary: st)
  case Nil then show ?case by simp
next
  case (Cons x xs)
  then show ?case by (cases "body x st") simp_all
qed

lemma for_each_stored:
  assumes body: "\<And>r st. body r st
                  = and_then (entry r) (\<lambda>e. Returns (cursor r, setitem (snd st) (key r) e))"
  shows "stored key entry recs0 (snd st) \<Longrightarrow> for_each body recs st = Returns st' \<Longrightarrow>
         stored key entry (recs0 @ recs) (snd st')"
proof (induction recs arbitrary: st recs0)
  case Nil then show ?case by simp
next
  case (Cons r recs)
  from Cons.prems(2) obtain st1 where
    b: "body r st = Returns st1" and f: "for_each body recs st1 = Returns st'"
    by (auto simp: and_then_Returns)
  from b obtain e where e: "entry r = Returns e"
    and st1: "st1 = (cursor r, setitem (snd st) (key r) e)"
    by (auto simp: body and_then_Returns)
  have "stored key entry (recs0 @ [r]) (snd st1)"
    using stored_step [OF Cons.prems(1) e] by (simp add: st1)
  from Cons.IH [OF this f] show ?case by simp
qed

lemma for_each_cursor:
  assumes body: "\<And>r st. body r st
                  = and_then (entry r) (\<lambda>e. Returns (cursor r, setitem (snd st) (key r) e))"
  shows "for_each body recs st = Returns st' \<Longrightarrow>
         fst st' = (if recs = [] then fst st else cursor (last recs))"
proof (induction recs arbitrary: st)
  case Nil then show ?case by simp
next
  case (Cons r recs)
  from Cons.prems obtain st1 where
    b: "body r st = Returns st1" and f: "for_each body recs st1 = Returns st'"
    by (auto simp: and_then_Returns)
  from b have "fst st1 = cursor r" by (auto simp: body and_then_Returns)
  then show ?case using Cons.IH [OF f] by simp
qed

lemma for_each_returns:
  assumes body: "\<And>r st. body r st
                  = and_then (entry r) (\<lambda>e. Returns (cursor r, setitem (snd st) (key r) e))"
  shows "\<forall>r \<in> set recs. \<exists>e. entry r = Returns e \<Longrightarrow> \<exists>st'. for_each body recs st = Returns st'"
proof (induction recs arbitrary: st)
  case Nil then show ?case by simp
next
  case (Cons r recs)
  then obtain e where e: "entry r = Returns e" by auto
  have "\<forall>r \<in> set recs. \<exists>e. entry r = Returns e" using Cons.prems by simp
  from Cons.IH [OF this] show ?case by (simp add: body e)
qed

text \<open>One turn of the loop, for each kind of answer.\<close>

lemma paginate_more:
  "paginate body (more q # answers) st
   = (case for_each body q st of
        Returns st1 \<Rightarrow>
          (fst st # fst (paginate body answers st1), snd (paginate body answers st1))
      | Raises ex \<Rightarrow> ([fst st], Raises ex)
      | Unanswered \<Rightarrow> ([fst st], Unanswered))"
  by (cases st) (simp add: more_def split: outcome.splits prod.splits)

lemma paginate_final_step:
  "paginate body (final p # rest) st
   = ([fst st], and_then (for_each body p st) (\<lambda>st1. Returns (snd st1)))"
  by (cases st) (simp add: final_def split: outcome.splits)

lemma paginate_fails_step:
  "paginate body (Fails ex # rest) st
   = ([fst st], if ex = DeliveryError then Returns (snd st) else Raises ex)"
  by (cases st) simp

lemma paginate_status_step:
  "paginate body (Answer (flag, Status code) # rest) st = ([fst st], Returns (snd st))"
  by (cases st) simp

lemma paginate_empty_step: "paginate body [] st = ([fst st], Unanswered)"
  by (cases st) simp

lemma paginate_records_step:
  "paginate body (Answer (flag, Records rsp) # rest) st
   = (if flag then paginate body (final rsp # rest) st else paginate body (more rsp # rest) st)"
  by (cases st; cases flag) (simp_all add: final_def more_def)

text \<open>What the loop returns holds the records it has gone through.\<close>

lemma paginate_stored:
  assumes body: "\<And>r st. body r st
                  = and_then (entry r) (\<lambda>e. Returns (cursor r, setitem (snd st) (key r) e))"
  shows "stored key entry recs0 (snd st) \<Longrightarrow> snd (paginate body answers st) = Returns d \<Longrightarrow>
         stored key entry (recs0 @ consumed answers) d"
proof (induction answers arbitrary: st recs0)
  case Nil
  then show ?case by (simp add: paginate_empty_step)
next
  case (Cons a answers)
  show ?case
  proof (cases a)
    case (Fails ex)
    then show ?thesis using Cons.prems by (simp add: paginate_fails_step split: if_splits)
  next
    case (Answer x)
    obtain flag pg where x: "x = (flag, pg)" by (cases x)
    show ?thesis
    proof (cases pg)
      case (Status code)
      then show ?thesis using Cons.prems Answer x by (simp add: paginate_status_step)
    next
      case (Records rsp)
      show ?thesis
      proof (cases flag)
        case True
        then have "and_then (for_each body rsp st) (\<lambda>st1. Returns (snd st1)) = Returns d"
          using Cons.prems(2) Answer x Records
          by (simp add: paginate_records_step paginate_final_step)
        then obtain st1 where f: "for_each body rsp st = Returns st1" and d: "d = snd st1"
          by (auto simp: and_then_Returns)
        show ?thesis
          using for_each_stored [of body entry cursor key, OF body Cons.prems(1) f]
            True Answer x Records d
          by simp
      next
        case False
        then have p: "snd (paginate body (more rsp # answers) st) = Returns d"
          using Cons.prems(2) Answer x Records by (simp add: paginate_records_step)
        then obtain st1 where f: "for_each body rsp st = Returns st1"
          and r: "snd (paginate body answers st1) = Returns d"
          by (cases "for_each body rsp st") (simp_all add: paginate_more)
        have "stored key entry (recs0 @ rsp) (snd st1)"
          by (rule for_each_stored [of body entry cursor key, OF body Cons.prems(1) f])
        from Cons.IH [OF this r] show ?thesis
          using False Answer x Records by simp
      qed
    qed
  qed
qed

text \<open>The records of a sequence of answers.\<close>

lemma consumed_final: "consumed (map more ps @ final p # rest) = concat ps @ p"
  by (induction ps) (simp_all add: more_def final_def)

lemma consumed_breaks: "breaks bad \<Longrightarrow> consumed (map more ps @ bad # rest) = concat ps"
proof (induction ps)
  case Nil
  then show ?case by (cases bad rule: breaks.cases) simp_all
next
  case (Cons q ps)
  then show ?case by (simp add: more_def)
qed

text \<open>When the loop returns, and when an exception leaves it.\<close>

lemma paginate_final:
  assumes body: "\<And>r st. body r st
                  = and_then (entry r) (\<lambda>e. Returns (cursor r, setitem (snd st) (key r) e))"
  shows "\<forall>r \<in> set (concat ps @ p). \<exists>e. entry r = Returns e \<Longrightarrow>
         \<exists>d. snd (paginate body (map more ps @ final p # rest) st) = Returns d"
proof (induction ps arbitrary: st)
  case Nil
  then obtain st1 where "for_each body p st = Returns st1"
    using for_each_returns [of body entry cursor key p st, OF body] by auto
  then show ?case by (simp add: paginate_final_step)
next
  case (Cons q ps)
  then obtain st1 where f: "for_each body q st = Returns st1"
    using for_each_returns [of body entry cursor key q st, OF body] by auto
  have "\<forall>r \<in> set (concat ps @ p). \<exists>e. entry r = Returns e" using Cons.prems by auto
  from Cons.IH [OF this, of st1] show ?case by (simp add: paginate_more f)
qed

lemma paginate_breaks:
  assumes body: "\<And>r st. body r st
                  = and_then (entry r) (\<lambda>e. Returns (cursor r, setitem (snd st) (key r) e))"
    and bad: "breaks bad"
  shows "\<forall>r \<in> set (concat ps). \<exists>e. entry r = Returns e \<Longrightarrow>
         \<exists>d. snd (paginate body (map more ps @ bad # rest) st) = Returns d"
proof (induction ps arbitrary: st)
  case Nil
  show ?case using bad
    by (cases bad rule: breaks.cases) (simp_all add: paginate_fails_step paginate_status_step)
next
  case (Cons q ps)
  then obtain st1 where f: "for_each body q st = Returns st1"
    using for_each_returns [of body entry cursor key q st, OF body] by auto
  have "\<forall>r \<in> set (concat ps). \<exists>e. entry r = Returns e" using Cons.prems by auto
  from Cons.IH [OF this, of st1] show ?case by (simp add: paginate_more f)
qed

lemma paginate_other_error:
  assumes body: "\<And>r st. body r st
                  = and_then (entry r) (\<lambda>e. Returns (cursor r, setitem (snd st) (key r) e))"
    and ex: "ex \<noteq> DeliveryError"
  shows "\<forall>r \<in> set (concat ps). \<exists>e. entry r = Returns e \<Longrightarrow>
         snd (paginate body (map more ps @ Fails ex # rest) st) = Raises ex"
proof (induction ps arbitrary: st)
  case Nil
  show ?case using ex by (simp add: paginate_fails_step)
next
  case (Cons q ps)
  then obtain st1 where f: "for_each body q st = Returns st1"
    using for_each_returns [of body entry cursor key q st, OF body] by auto
  have "\<forall>r \<in> set (concat ps). \<exists>e. entry r = Returns e" using Cons.prems by auto
  from Cons.IH [OF this, of st1] show ?case by (simp add: paginate_more f)
qed

text \<open>The start indices the loop asks for.\<close>

lemma paginate_asked_0: "fst (paginate body answers st) ! 0 = fst st"
proof (cases answers)
  case Nil then show ?thesis by (simp add: paginate_empty_step)
next
  case (Cons a rest)
  show ?thesis
  proof (cases a)
    case (Fails ex)
    then show ?thesis using Cons by (simp add: paginate_fails_step)
  next
    case (Answer x)
    obtain flag pg where x: "x = (flag, pg)" by (cases x)
    show ?thesis
    proof (cases pg)
      case (Status code)
      then show ?thesis using Cons Answer x by (simp add: paginate_status_step)
    next
      case (Records rsp)
      then show ?thesis
        using Cons Answer x
        by (simp add: paginate_records_step paginate_final_step paginate_more
            split: outcome.splits)
    qed
  qed
qed

lemma paginate_asked_nonempty: "fst (paginate body answers st) \<noteq> []"
proof (cases answers)
  case Nil then show ?thesis by (simp add: paginate_empty_step)
next
  case (Cons a rest)
  show ?thesis
  proof (cases a)
    case (Fails ex)
    then show ?thesis using Cons by (simp add: paginate_fails_step)
  next
    case (Answer x)
    obtain flag pg where x: "x = (flag, pg)" by (cases x)
    show ?thesis
    proof (cases pg)
      case (Status code)
      then show ?thesis using Cons Answer x by (simp add: paginate_status_step)
    next
      case (Records rsp)
      then show ?thesis
        using Cons Answer x
        by (simp add: paginate_records_step paginate_final_step paginate_more
            split: outcome.splits)
    qed
  qed
qed

lemma paginate_next:
  assumes body: "\<And>r st. body r st
                  = and_then (entry r) (\<lambda>e. Returns (cursor r, setitem (snd st) (key r) e))"
  shows "i < length ps \<Longrightarrow> Suc i < length (fst (paginate body (map more ps @ rest) st)) \<Longrightarrow>
         fst (paginate body (map more ps @ rest) st) ! Suc i
         = (if ps ! i = [] then fst (paginate body (map more ps @ rest) st) ! i
            else cursor (last (ps ! i)))"
proof (induction ps arbitrary: st i)
  case Nil then show ?case by simp
next
  case (Cons q ps)
  show ?case
  proof (cases "for_each body q st")
    case (Returns st1)
    have asked: "fst (paginate body (more q # map more ps @ rest) st)
                 = fst st # fst (paginate body (map more ps @ rest) st1)"
      by (simp add: paginate_more Returns)
    have c: "fst st1 = (if q = [] then fst st else cursor (last q))"
      by (rule for_each_cursor [of body entry cursor key, OF body Returns])
    show ?thesis
    proof (cases i)
      case 0
      have "fst (paginate body (map more (q # ps) @ rest) st) ! Suc i = fst st1"
        by (simp add: asked 0 paginate_asked_0)
      moreover have "fst (paginate body (map more (q # ps) @ rest) st) ! i = fst st"
        by (simp add: asked 0)
      moreover have "(q # ps) ! i = q" by (simp add: 0)
      ultimately show ?thesis by (simp only: c)
    next
      case (Suc j)
      then have j: "j < length ps"
        and l: "Suc j < length (fst (paginate body (map more ps @ rest) st1))"
        using Cons.prems by (simp_all add: asked)
      from Cons.IH [OF j l] show ?thesis by (simp add: asked Suc)
    qed
  next
    case (Raises ex)
    then show ?thesis using Cons.prems(2) by (simp add: paginate_more)
  next
    case Unanswered
    then show ?thesis using Cons.prems(2) by (simp add: paginate_more)
  qed
qed

lemma paginate_asked_length:
  assumes body: "\<And>r st. body r st
                  = and_then (entry r) (\<lambda>e. Returns (cursor r, setitem (snd st) (key r) e))"
  shows "i < length ps \<Longrightarrow> \<forall>r \<in> set (concat (take (Suc i) ps)). \<exists>e. entry r = Returns e \<Longrightarrow>
         Suc i < length (fst (paginate body (map more ps @ rest) st))"
proof (induction ps arbitrary: st i)
  case Nil then show ?case by simp
next
  case (Cons q ps)
  have "\<forall>r \<in> set q. \<exists>e. entry r = Returns e" using Cons.prems(2) by simp
  then obtain st1 where f: "for_each body q st = Returns st1"
    using for_each_returns [of body entry cursor key q st, OF body] by auto
  have asked: "fst (paginate body (more q # map more ps @ rest) st)
               = fst st # fst (paginate body (map more ps @ rest) st1)"
    by (simp add: paginate_more f)
  show ?case
  proof (cases i)
    case 0
    have "0 < length (fst (paginate body (map more ps @ rest) st1))"
      using paginate_asked_nonempty [of body "map more ps @ rest" st1] by simp
    then show ?thesis by (simp add: asked 0)
  next
    case (Suc j)
    then have j: "j < length ps" using Cons.prems(1) by simp
    have "\<forall>r \<in> set (concat (take (Suc j) ps)). \<exists>e. entry r = Returns e"
      using Cons.prems(2) Suc by simp
    from Cons.IH [OF j this, of st1] show ?thesis by (simp add: asked Suc)
  qed
qed

section \<open>Byte strings\<close>

lemma split0_head_append: "0 \<notin> set pre \<Longrightarrow> split0_head (pre @ 0 # post) = pre"
  by (auto simp: split0_head_def takeWhile_tail)

lemma digit_val_hex_digit: "d < 16 \<Longrightarrow> digit_val (of_char (hex_digit d)) = Some d"
  by (auto simp: digit_val_def hex_digit_def)

lemma fromhex_bytes_hex: "fromhex (str_of (bytes_hex v)) = Some v"
proof (induction v)
  case Nil
  show ?case by (simp add: str_of_def bytes_hex_def)
next
  case (Cons b v)
  have "unat b < 256" using unsigned_less [of b] by simp
  then have hi: "unat b div 16 < 16" by simp
  have "(of_nat (unat b div 16 * 16 + unat b mod 16) :: 8 word) = b" by simp
  then show ?case
    using Cons.IH hi
    by (simp add: str_of_def bytes_hex_def digit_val_hex_digit)
qed

lemma strip_parts:
  "\<exists>a b. s = a @ strip s @ b \<and> (\<forall>c \<in> set a. isspace c) \<and> (\<forall>c \<in> set b. isspace c)"
proof -
  let ?t = "dropWhile isspace s"
  have s: "s = takeWhile isspace s @ ?t" by simp
  have "rev ?t = takeWhile isspace (rev ?t) @ dropWhile isspace (rev ?t)" by simp
  then have "?t = rev (dropWhile isspace (rev ?t)) @ rev (takeWhile isspace (rev ?t))"
    by (metis rev_append rev_rev_ident)
  then have t: "?t = strip s @ rev (takeWhile isspace (rev ?t))"
    by (simp add: strip_def)
  have "s = takeWhile isspace s @ strip s @ rev (takeWhile isspace (rev ?t))"
    using s t by metis
  moreover have "\<forall>c \<in> set (takeWhile isspace s). isspace c"
    by (auto dest: set_takeWhileD)
  moreover have "\<forall>c \<in> set (rev (takeWhile isspace (rev ?t))). isspace c"
    by (auto dest: set_takeWhileD)
  ultimately show ?thesis by blast
qed

lemma strip_ends:
  "strip s \<noteq> [] \<Longrightarrow> \<not> isspace (hd (strip s)) \<and> \<not> isspace (last (strip s))"
proof -
  assume ne: "strip s \<noteq> []"
  let ?t = "dropWhile isspace s"
  let ?u = "dropWhile isspace (rev ?t)"
  have u: "?u \<noteq> []" using ne by (simp add: strip_def)
  then have "\<not> isspace (hd ?u)" by (rule hd_dropWhile)
  then have l: "\<not> isspace (last (strip s))" using u by (simp add: strip_def last_rev)
  have "?t \<noteq> []" using u by (cases ?t) simp_all
  then have h: "\<not> isspace (hd ?t)" by (rule hd_dropWhile)
  obtain b where "?t = strip s @ b"
    using strip_parts [of s] by (metis append_eq_append_conv2 rev_append rev_rev_ident strip_def takeWhile_dropWhile_id)
  then have "hd ?t = hd (strip s)" using ne by (metis hd_append2)
  then show ?thesis using h l by simp
qed

text \<open>
  Claim C6. A byte string with a null byte, whose bytes in front of the first null byte are
  well-formed UTF-8, becomes the text of those bytes with the white space at both ends
  removed. A byte string whose bytes in front of the first null byte (all of them when there
  is none) do not decode becomes the hex digits of all its bytes, and reading the hex digits
  back gives the bytes again.
\<close>

theorem byte_string_value:
  "(v = pre @ 0 # post \<and> 0 \<notin> set pre \<and> utf8_decode pre = Some s
      \<longrightarrow> decode_value (Bytes v) = Text (strip s))
   \<and> (utf8_decode (split0_head v) = None
      \<longrightarrow> decode_value (Bytes v) = Text (str_of (bytes_hex v)))
   \<and> fromhex (str_of (bytes_hex v)) = Some v"
  by (auto simp: split0_head_append fromhex_bytes_hex)

theorem byte_string_value_witness:
  "decode_value (Bytes [0x20, 0x61, 0x62, 0x20, 0, 0xff, 0x63]) = Text [0x61, 0x62]
   \<and> decode_value (Bytes [0xff, 0x00, 0x41]) = Text (str_of ''ff0041'')
   \<and> fromhex (str_of ''ff0041'') = Some [0xff, 0x00, 0x41]"
proof -
  have d: "utf8_decode [0x20, 0x61, 0x62, 0x20] = Some [0x20, 0x61, 0x62, 0x20]"
    by simp
  have s: "strip [0x20, 0x61, 0x62, 0x20] = [0x61, 0x62]"
    by (simp add: strip_def isspace_def)
  have n: "utf8_decode (split0_head [0xff, 0x00, 0x41]) = None"
    by (simp add: split0_head_def)
  have h: "bytes_hex [0xff, 0x00, 0x41] = ''ff0041''"
    by (simp add: bytes_hex_def hex_digit_def char_of_eq_iff)
  show ?thesis
    using byte_string_value [of "[0x20, 0x61, 0x62, 0x20, 0, 0xff, 0x63]" "[0x20, 0x61, 0x62, 0x20]"
        "[0xff, 0x63]" "[0x20, 0x61, 0x62, 0x20]"]
      byte_string_value [of "[0xff, 0x00, 0x41]"] d s n h
    by simp
qed

section \<open>What the loop accumulates\<close>

text \<open>The three bodies store an entry under a key and set the cursor.\<close>

lemma attr_body_stores:
  "attr_body fnd cl r st
   = and_then (attr_entry_of fnd cl r)
       (\<lambda>e. Returns (unat (attrid r) + 1, setitem (snd st) (attrid r) e))"
  by (simp add: attr_body_def)

lemma received_body_stores:
  "received_body cl c st
   = and_then (Returns (received_entry cl c))
       (\<lambda>e. Returns (unat c + 1, setitem (snd st) (format_02x (unat c)) e))"
  by (simp add: received_body_def)

lemma generated_body_stores:
  "generated_body cl c st
   = and_then (Returns (generated_entry cl c))
       (\<lambda>e. Returns (unat c + 1, setitem (snd st) (format_02x (unat c)) e))"
  by (simp add: generated_body_def)

text \<open>The entry of an attribute record is there exactly when its type can be written.\<close>

lemma attr_type_resolved:
  "resolved fnd r \<Longrightarrow> \<exists>t. attr_type_of fnd r = Returns t"
  by (auto simp: resolved_def attr_type_of_def split: option.splits prod.splits)

lemma attr_type_unresolved:
  "\<not> resolved fnd r \<Longrightarrow> attr_type_of fnd r = Raises AttributeError"
  by (auto simp: resolved_def attr_type_of_def split: option.splits prod.splits)

lemma attr_entry_resolved:
  "resolved fnd r \<Longrightarrow> \<exists>e. attr_entry_of fnd cl r = Returns e"
  using attr_type_resolved [of fnd r] by (auto simp: attr_entry_of_def Let_def)

lemma attr_entry_unresolved:
  "\<not> resolved fnd r \<Longrightarrow> attr_entry_of fnd cl r = Raises AttributeError"
  by (simp add: attr_entry_of_def Let_def attr_type_unresolved)

lemma attr_entries_resolved:
  "\<forall>r \<in> set recs. resolved fnd r \<Longrightarrow> \<forall>r \<in> set recs. \<exists>e. attr_entry_of fnd cl r = Returns e"
  by (simp add: attr_entry_resolved)

lemma latest_key:
  "latest key recs k = Some r \<Longrightarrow> key r = k \<and> r \<in> set recs"
proof -
  assume l: "latest key recs k = Some r"
  then have ne: "filter (\<lambda>r. key r = k) recs \<noteq> []" and r: "r = last (filter (\<lambda>r. key r = k) recs)"
    by (auto simp: latest_def split: list.splits)
  then have "r \<in> set (filter (\<lambda>r. key r = k) recs)" using last_in_set by blast
  then show ?thesis by simp
qed

lemma latest_None: "(latest key recs k = None) = (k \<notin> key ` set recs)"
proof (cases "filter (\<lambda>r. key r = k) recs")
  case Nil
  then have "k \<notin> key ` set recs" by (auto simp: filter_empty_conv)
  with Nil show ?thesis by (simp add: latest_def)
next
  case (Cons r rs)
  then have "r \<in> set (filter (\<lambda>r. key r = k) recs)" by simp
  then have "k \<in> key ` set recs" by auto
  with Cons show ?thesis by (simp add: latest_def)
qed

text \<open>What a dictionary that holds the records has under the key of a record.\<close>

lemma stored_distinct: "stored key entry recs d \<Longrightarrow> distinct (map fst d)"
  by (simp add: stored_def)

lemma stored_keys: "stored key entry recs d \<Longrightarrow> fst ` set d = key ` set recs"
  by (simp add: stored_def)

lemma stored_map_of:
  "stored key entry recs d \<Longrightarrow>
   map_option Returns (map_of d k) = map_option entry (latest key recs k)"
  by (simp add: stored_def)

lemma stored_lookup:
  assumes s: "stored key (\<lambda>r. Returns (entry r)) recs d"
    and inj: "\<And>r r'. key r = key r' \<Longrightarrow> r = r'"
    and r: "r \<in> set recs"
  shows "map_of d (key r) = Some (entry r)"
proof -
  have "latest key recs (key r) \<noteq> None" using r by (simp only: latest_None) blast
  then obtain r' where l: "latest key recs (key r) = Some r'" by blast
  have "key r' = key r" using latest_key [OF l] by simp
  then have "r' = r" by (rule inj)
  then have "map_option Returns (map_of d (key r)) = Some (Returns (entry r))"
    using stored_map_of [OF s, of "key r"] l by simp
  then show ?thesis by (cases "map_of d (key r)") simp_all
qed

text \<open>The dictionary the two command functions return.\<close>

lemma sorted_dict_distinct:
  "distinct (map fst d) \<Longrightarrow> distinct (map fst (OrderedDict (sorted_items d)))"
  by (simp add: OrderedDict_distinct keys_sorted_items)

lemma sorted_dict_set:
  "distinct (map fst d) \<Longrightarrow> set (OrderedDict (sorted_items d)) = set d"
  by (simp add: OrderedDict_distinct keys_sorted_items) (simp add: sorted_items_def)

lemma sorted_dict_map_of:
  "distinct (map fst d) \<Longrightarrow> map_of (OrderedDict (sorted_items d)) = map_of d"
  using sorted_dict_distinct [of d] sorted_dict_set [of d] by (simp add: map_of_inject_set)

lemma commands_stored:
  fixes entry :: "8 word \<Rightarrow> 'e" and recs :: "8 word list"
  assumes s: "stored (\<lambda>c. format_02x (unat c)) (\<lambda>c. Returns (entry c)) recs d"
  defines "out \<equiv> OrderedDict (sorted_items d)"
  shows "distinct (map fst out)"
    and "fst ` set out = (\<lambda>c. format_02x (unat c)) ` set recs"
    and "\<forall>c \<in> set recs. map_of out (format_02x (unat c)) = Some (entry c)"
proof -
  let ?key = "\<lambda>c::8 word. format_02x (unat c)"
  have d: "distinct (map fst d)" by (rule stored_distinct [OF s])
  show "distinct (map fst out)" unfolding out_def by (rule sorted_dict_distinct [OF d])
  show "fst ` set out = ?key ` set recs"
    unfolding out_def by (simp add: sorted_dict_set [OF d] stored_keys [OF s])
  show "\<forall>c \<in> set recs. map_of out (?key c) = Some (entry c)"
  proof
    fix c assume c: "c \<in> set recs"
    have "map_of d (?key c) = Some (entry c)"
      by (rule stored_lookup [of ?key entry recs d, OF s _ c]) (simp add: key02_eq)
    then show "map_of out (?key c) = Some (entry c)"
      unfolding out_def by (simp add: sorted_dict_map_of [OF d])
  qed
qed

text \<open>What each of the three loops has when it returns.\<close>

lemma attributes_stored:
  "snd (paginate (attr_body fnd cl) answers (0, [])) = Returns d \<Longrightarrow>
   stored attrid (attr_entry_of fnd cl) (consumed answers) d"
  using paginate_stored [of "attr_body fnd cl" "attr_entry_of fnd cl" "\<lambda>r. unat (attrid r) + 1"
      attrid "[]" "(0, [])" answers d, OF attr_body_stores]
  by (simp add: stored_empty)

lemma received_stored:
  "snd (paginate (received_body cl) answers (0, [])) = Returns d \<Longrightarrow>
   stored (\<lambda>c. format_02x (unat c)) (\<lambda>c. Returns (received_entry cl c)) (consumed answers) d"
  using paginate_stored [of "received_body cl" "\<lambda>c. Returns (received_entry cl c)"
      "\<lambda>c. unat c + 1" "\<lambda>c. format_02x (unat c)" "[]" "(0, [])" answers d,
      OF received_body_stores]
  by (simp add: stored_empty)

lemma generated_stored:
  "snd (paginate (generated_body cl) answers (0, [])) = Returns d \<Longrightarrow>
   stored (\<lambda>c. format_02x (unat c)) (\<lambda>c. Returns (generated_entry cl c)) (consumed answers) d"
  using paginate_stored [of "generated_body cl" "\<lambda>c. Returns (generated_entry cl c)"
      "\<lambda>c. unat c + 1" "\<lambda>c. format_02x (unat c)" "[]" "(0, [])" answers d,
      OF generated_body_stores]
  by (simp add: stored_empty)

lemma received_returns:
  "discover_commands_received cl is_server = Returns out \<Longrightarrow>
   distinct (map fst out)
   \<and> fst ` set out = (\<lambda>c. format_02x (unat c)) ` set (consumed (commands_received_answers cl))
   \<and> (\<forall>c \<in> set (consumed (commands_received_answers cl)).
         map_of out (format_02x (unat c)) = Some (received_entry cl c))"
proof -
  assume "discover_commands_received cl is_server = Returns out"
  then obtain d where
    d: "snd (paginate (received_body cl) (commands_received_answers cl) (0, [])) = Returns d"
    and out: "out = OrderedDict (sorted_items d)"
    by (auto simp: discover_commands_received_def and_then_Returns)
  show ?thesis
    using commands_stored [OF received_stored [OF d]] by (simp add: out)
qed

lemma generated_returns:
  "discover_commands_generated cl is_server = Returns out \<Longrightarrow>
   distinct (map fst out)
   \<and> fst ` set out = (\<lambda>c. format_02x (unat c)) ` set (consumed (commands_generated_answers cl))
   \<and> (\<forall>c \<in> set (consumed (commands_generated_answers cl)).
         map_of out (format_02x (unat c)) = Some (generated_entry cl c))"
proof -
  assume "discover_commands_generated cl is_server = Returns out"
  then obtain d where
    d: "snd (paginate (generated_body cl) (commands_generated_answers cl) (0, [])) = Returns d"
    and out: "out = OrderedDict (sorted_items d)"
    by (auto simp: discover_commands_generated_def and_then_Returns)
  show ?thesis
    using commands_stored [OF generated_stored [OF d]] by (simp add: out)
qed

section \<open>The entries of the commands\<close>

lemma keys_OrderedDict3:
  "k1 \<noteq> k2 \<Longrightarrow> k1 \<noteq> k3 \<Longrightarrow> k2 \<noteq> k3 \<Longrightarrow>
   OrderedDict [(k1, v1), (k2, v2), (k3, v3)] = [(k1, v1), (k2, v2), (k3, v3)]"
  by (simp add: OrderedDict_distinct)

lemma received_entry_keys:
  "map fst (received_entry cl c) = [''command_id'', ''command_name'', ''command_arguments'']"
  by (simp add: received_entry_def keys_OrderedDict3 split: prod.splits)

lemma generated_entry_keys:
  "map fst (generated_entry cl c) = [''command_id'', ''command_Name'', ''command_args'']"
  by (simp add: generated_entry_def keys_OrderedDict3 split: prod.splits)

lemma format_02x_0: "format_02x 0 = ''0x00''"
  by (simp add: format_02x_def zero_pad_def format_x.simps hex_digit_def char_of_eq_iff)

lemma str_nat_0: "str_nat 0 = ''0''"
  by (simp add: str_nat.simps char_of_eq_iff)

text \<open>
  Claim C1, at a cluster that reports the one generated command 0x00: the entry that
  \<^verbatim>\<open>discover_commands_generated\<close> gives has the keys \<^verbatim>\<open>command_id\<close>,
  \<^verbatim>\<open>command_Name\<close> and \<^verbatim>\<open>command_args\<close>, and not the keys \<^verbatim>\<open>command_name\<close> and
  \<^verbatim>\<open>command_arguments\<close> that the entries of \<^verbatim>\<open>discover_commands_received\<close> have.
\<close>

theorem commands_generated_entry_keys:
  "discover_commands_generated on_off True
   = Returns [(''0x00'', [(''command_id'', S ''0x00''), (''command_Name'', S ''0''),
                          (''command_args'', S ''not_in_zcl'')])]"
proof -
  have e: "generated_entry on_off 0
           = [(''command_id'', S ''0x00''), (''command_Name'', S ''0''),
              (''command_args'', S ''not_in_zcl'')]"
    by (simp add: generated_entry_def cmd_data_def on_off_def keys_OrderedDict3
        format_02x_0 str_nat_0)
  have "snd (paginate (generated_body on_off) (commands_generated_answers on_off) (0, []))
        = Returns [(''0x00'', generated_entry on_off 0)]"
    by (simp add: on_off_def paginate_final_step generated_body_def setitem_def format_02x_0)
  then show ?thesis
    by (simp add: discover_commands_generated_def e sorted_items_def OrderedDict_distinct)
qed

section \<open>The pages of a discovery\<close>

lemma resolved_attr: "resolved zcl (attr a)"
  by (simp add: resolved_def zcl_def attr_def)

text \<open>
  When the answers are pages with the completion flag false and then a page with the flag
  true, and the type of every record can be written, the loop of the attributes returns a
  dictionary that holds the records of these pages; the loops of the commands always do.
\<close>

lemma attributes_final:
  assumes "attributes_extended_answers cl = map more ps @ final p # rest"
    and "\<forall>r \<in> set (concat ps @ p). resolved fnd r"
  shows "\<exists>result.
           snd (paginate (attr_body fnd cl) (attributes_extended_answers cl) (0, []))
             = Returns result
           \<and> stored attrid (attr_entry_of fnd cl) (concat ps @ p) result"
proof -
  have "\<forall>r \<in> set (concat ps @ p). \<exists>e. attr_entry_of fnd cl r = Returns e"
    by (rule attr_entries_resolved [OF assms(2)])
  then obtain d where
    d: "snd (paginate (attr_body fnd cl) (map more ps @ final p # rest) (0, [])) = Returns d"
    using paginate_final [of "attr_body fnd cl" "attr_entry_of fnd cl" "\<lambda>r. unat (attrid r) + 1"
        attrid ps p rest "(0, [])", OF attr_body_stores]
    by blast
  have "stored attrid (attr_entry_of fnd cl) (concat ps @ p) d"
    using attributes_stored [OF d] by (simp add: consumed_final)
  then show ?thesis using d assms(1) by simp
qed

lemma received_final:
  assumes "commands_received_answers cl = map more ps @ final p # rest"
  shows "\<exists>out.
           discover_commands_received cl is_server = Returns out
           \<and> distinct (map fst out)
           \<and> fst ` set out = (\<lambda>c. format_02x (unat c)) ` set (concat ps @ p)
           \<and> (\<forall>c \<in> set (concat ps @ p).
                 map_of out (format_02x (unat c)) = Some (received_entry cl c))"
proof -
  obtain d where
    d: "snd (paginate (received_body cl) (map more ps @ final p # rest) (0, [])) = Returns d"
    using paginate_final [of "received_body cl" "\<lambda>c. Returns (received_entry cl c)"
        "\<lambda>c. unat c + 1" "\<lambda>c. format_02x (unat c)" ps p rest "(0, [])",
        OF received_body_stores]
    by blast
  then have r: "discover_commands_received cl is_server = Returns (OrderedDict (sorted_items d))"
    by (simp add: discover_commands_received_def assms)
  show ?thesis
    using received_returns [OF r] r by (simp add: assms consumed_final)
qed

lemma generated_final:
  assumes "commands_generated_answers cl = map more ps @ final p # rest"
  shows "\<exists>out.
           discover_commands_generated cl is_server = Returns out
           \<and> distinct (map fst out)
           \<and> fst ` set out = (\<lambda>c. format_02x (unat c)) ` set (concat ps @ p)
           \<and> (\<forall>c \<in> set (concat ps @ p).
                 map_of out (format_02x (unat c)) = Some (generated_entry cl c))"
proof -
  obtain d where
    d: "snd (paginate (generated_body cl) (map more ps @ final p # rest) (0, [])) = Returns d"
    using paginate_final [of "generated_body cl" "\<lambda>c. Returns (generated_entry cl c)"
        "\<lambda>c. unat c + 1" "\<lambda>c. format_02x (unat c)" ps p rest "(0, [])",
        OF generated_body_stores]
    by blast
  then have r: "discover_commands_generated cl is_server = Returns (OrderedDict (sorted_items d))"
    by (simp add: discover_commands_generated_def assms)
  show ?thesis
    using generated_returns [OF r] r by (simp add: assms consumed_final)
qed

text \<open>
  A record whose type cannot be written ends the loop of the attributes with the exception
  of line 126, whatever the pages before it have stored.
\<close>

lemma for_each_unresolved:
  "\<forall>r \<in> set recs. resolved fnd r \<Longrightarrow> \<not> resolved fnd bad \<Longrightarrow>
   for_each (attr_body fnd cl) (recs @ bad # rest) st = Raises AttributeError"
proof (induction recs arbitrary: st)
  case Nil
  then show ?case by (simp add: attr_body_def attr_entry_unresolved)
next
  case (Cons r recs)
  then obtain e where "attr_entry_of fnd cl r = Returns e"
    using attr_entry_resolved [of fnd r cl] by auto
  then show ?case using Cons by (simp add: attr_body_def)
qed

lemma attributes_unresolved:
  assumes "\<forall>r \<in> set (concat ps @ recs). resolved fnd r" and "\<not> resolved fnd bad"
  shows "snd (paginate (attr_body fnd cl)
                (map more ps @ Answer (flag, Records (recs @ bad # rest)) # answers) st)
         = Raises AttributeError"
  using assms(1)
proof (induction ps arbitrary: st)
  case Nil
  then have "for_each (attr_body fnd cl) (recs @ bad # rest) st = Raises AttributeError"
    using for_each_unresolved [of recs fnd bad cl rest st] assms(2) by simp
  then show ?case by (simp add: paginate_records_step paginate_final_step paginate_more)
next
  case (Cons q ps)
  then have "\<forall>r \<in> set q. \<exists>e. attr_entry_of fnd cl r = Returns e"
    by (simp add: attr_entry_resolved)
  then obtain st1 where f: "for_each (attr_body fnd cl) q st = Returns st1"
    using for_each_returns [of "attr_body fnd cl" "attr_entry_of fnd cl"
        "\<lambda>r. unat (attrid r) + 1" attrid q st, OF attr_body_stores]
    by blast
  have "\<forall>r \<in> set (concat ps @ recs). resolved fnd r" using Cons.prems by simp
  from Cons.IH [OF this, of st1] show ?case by (simp add: paginate_more f)
qed

text \<open>
  Claim C2, at a cluster that reports one page, with the completion flag true, of two
  attributes, the second with the data type 0xFF: the table has this data type with a class
  in the first place and none in the second, as the table of the Zigbee library has it. The
  name of the second class is read at line 126 and the read raises \<^verbatim>\<open>AttributeError\<close>:
  the loop does not return a mapping with the ids 0 and 1, the exception leaves it, and it
  leaves \<^verbatim>\<open>discover_attributes_extended\<close> too.
\<close>

theorem paginator_unresolved_type:
  "attributes_extended_answers odd
     = [final [attr 0, \<lparr>attrid = 1, data_type = 0xFF, acl = 0x01\<rparr>]]
   \<and> DATA_TYPES zcl 0xFF = Some (Some ''Unknown'', None)
   \<and> snd (paginate (attr_body zcl odd) (attributes_extended_answers odd) (0, []))
       = Raises AttributeError
   \<and> discover_attributes_extended zcl odd = Raises AttributeError"
proof -
  have a: "attributes_extended_answers odd
           = [final [attr 0, \<lparr>attrid = 1, data_type = 0xFF, acl = 0x01\<rparr>]]"
    by (simp add: odd_def)
  have t: "DATA_TYPES zcl 0xFF = Some (Some ''Unknown'', None)"
    by (simp add: zcl_def)
  have u: "\<not> resolved zcl \<lparr>attrid = 1, data_type = 0xFF, acl = 0x01\<rparr>"
    by (simp add: resolved_def t)
  have "snd (paginate (attr_body zcl odd)
               (map more [] @ Answer (True, Records ([attr 0]
                  @ \<lparr>attrid = 1, data_type = 0xFF, acl = 0x01\<rparr> # [])) # []) (0, []))
        = Raises AttributeError"
    by (rule attributes_unresolved) (simp_all add: resolved_attr u)
  then have p: "snd (paginate (attr_body zcl odd) (attributes_extended_answers odd) (0, []))
                = Raises AttributeError"
    by (simp add: a final_def)
  then have "discover_attributes_extended zcl odd = Raises AttributeError"
    by (simp add: discover_attributes_extended_def)
  with a t p show ?thesis by (intro conjI)
qed

text \<open>The loop at an answer that is not a page.\<close>

lemma attributes_breaks:
  assumes "attributes_extended_answers cl = map more ps @ bad # rest"
    and "\<forall>r \<in> set (concat ps). resolved fnd r" and "breaks bad"
  shows "\<exists>result.
           snd (paginate (attr_body fnd cl) (attributes_extended_answers cl) (0, []))
             = Returns result
           \<and> stored attrid (attr_entry_of fnd cl) (concat ps) result"
proof -
  have "\<forall>r \<in> set (concat ps). \<exists>e. attr_entry_of fnd cl r = Returns e"
    by (rule attr_entries_resolved [OF assms(2)])
  then obtain d where
    d: "snd (paginate (attr_body fnd cl) (map more ps @ bad # rest) (0, [])) = Returns d"
    using paginate_breaks [of "attr_body fnd cl" "attr_entry_of fnd cl" "\<lambda>r. unat (attrid r) + 1"
        attrid bad ps rest "(0, [])", OF attr_body_stores assms(3)]
    by blast
  have "stored attrid (attr_entry_of fnd cl) (concat ps) d"
    using attributes_stored [OF d] by (simp add: consumed_breaks [OF assms(3)])
  then show ?thesis using d assms(1) by simp
qed

lemma received_breaks:
  assumes "commands_received_answers cl = map more ps @ bad # rest" and "breaks bad"
  shows "\<exists>out.
           discover_commands_received cl is_server = Returns out
           \<and> distinct (map fst out)
           \<and> fst ` set out = (\<lambda>c. format_02x (unat c)) ` set (concat ps)
           \<and> (\<forall>c \<in> set (concat ps).
                 map_of out (format_02x (unat c)) = Some (received_entry cl c))"
proof -
  obtain d where
    d: "snd (paginate (received_body cl) (map more ps @ bad # rest) (0, [])) = Returns d"
    using paginate_breaks [of "received_body cl" "\<lambda>c. Returns (received_entry cl c)"
        "\<lambda>c. unat c + 1" "\<lambda>c. format_02x (unat c)" bad ps rest "(0, [])",
        OF received_body_stores assms(2)]
    by blast
  then have r: "discover_commands_received cl is_server = Returns (OrderedDict (sorted_items d))"
    by (simp add: discover_commands_received_def assms(1))
  show ?thesis
    using received_returns [OF r] r by (simp add: assms(1) consumed_breaks [OF assms(2)])
qed

lemma generated_breaks:
  assumes "commands_generated_answers cl = map more ps @ bad # rest" and "breaks bad"
  shows "\<exists>out.
           discover_commands_generated cl is_server = Returns out
           \<and> distinct (map fst out)
           \<and> fst ` set out = (\<lambda>c. format_02x (unat c)) ` set (concat ps)
           \<and> (\<forall>c \<in> set (concat ps).
                 map_of out (format_02x (unat c)) = Some (generated_entry cl c))"
proof -
  obtain d where
    d: "snd (paginate (generated_body cl) (map more ps @ bad # rest) (0, [])) = Returns d"
    using paginate_breaks [of "generated_body cl" "\<lambda>c. Returns (generated_entry cl c)"
        "\<lambda>c. unat c + 1" "\<lambda>c. format_02x (unat c)" bad ps rest "(0, [])",
        OF generated_body_stores assms(2)]
    by blast
  then have r: "discover_commands_generated cl is_server = Returns (OrderedDict (sorted_items d))"
    by (simp add: discover_commands_generated_def assms(1))
  show ?thesis
    using generated_returns [OF r] r by (simp add: assms(1) consumed_breaks [OF assms(2)])
qed

lemma attributes_other_error:
  assumes "attributes_extended_answers cl = map more ps @ Fails ex # rest"
    and "\<forall>r \<in> set (concat ps). resolved fnd r" and "ex \<noteq> DeliveryError"
  shows "snd (paginate (attr_body fnd cl) (attributes_extended_answers cl) (0, [])) = Raises ex"
  using paginate_other_error [of "attr_body fnd cl" "attr_entry_of fnd cl"
      "\<lambda>r. unat (attrid r) + 1" attrid ex ps rest "(0, [])", OF attr_body_stores assms(3)]
    attr_entries_resolved [OF assms(2), of cl]
  by (simp add: assms(1))

lemma received_other_error:
  assumes "commands_received_answers cl = map more ps @ Fails ex # rest"
    and "ex \<noteq> DeliveryError"
  shows "discover_commands_received cl is_server = Raises ex"
  using paginate_other_error [of "received_body cl" "\<lambda>c. Returns (received_entry cl c)"
      "\<lambda>c. unat c + 1" "\<lambda>c. format_02x (unat c)" ex ps rest "(0, [])",
      OF received_body_stores assms(2)]
  by (simp add: discover_commands_received_def assms(1))

lemma generated_other_error:
  assumes "commands_generated_answers cl = map more ps @ Fails ex # rest"
    and "ex \<noteq> DeliveryError"
  shows "discover_commands_generated cl is_server = Raises ex"
  using paginate_other_error [of "generated_body cl" "\<lambda>c. Returns (generated_entry cl c)"
      "\<lambda>c. unat c + 1" "\<lambda>c. format_02x (unat c)" ex ps rest "(0, [])",
      OF generated_body_stores assms(2)]
  by (simp add: discover_commands_generated_def assms(1))

text \<open>
  In the example the answer to the second request of each discovery is a timeout that has
  outlasted the retries: none of the three functions returns the records of the first page,
  the timeout leaves each of them.
\<close>

theorem paginator_timeout_counterexample:
  "attributes_extended_answers sleepy = [more [attr 0], Fails TimeoutError]
   \<and> commands_received_answers sleepy = [more [0x00], Fails TimeoutError]
   \<and> commands_generated_answers sleepy = [more [0x00], Fails TimeoutError]
   \<and> snd (paginate (attr_body zcl sleepy) (attributes_extended_answers sleepy) (0, []))
       = Raises TimeoutError
   \<and> discover_attributes_extended zcl sleepy = Raises TimeoutError
   \<and> discover_commands_received sleepy True = Raises TimeoutError
   \<and> discover_commands_generated sleepy True = Raises TimeoutError"
proof -
  have a: "attributes_extended_answers sleepy = [more [attr 0], Fails TimeoutError]"
    and r: "commands_received_answers sleepy = [more [0x00], Fails TimeoutError]"
    and g: "commands_generated_answers sleepy = [more [0x00], Fails TimeoutError]"
    by (simp_all add: sleepy_def)
  have p: "snd (paginate (attr_body zcl sleepy) (attributes_extended_answers sleepy) (0, []))
           = Raises TimeoutError"
    by (rule attributes_other_error [of sleepy "[[attr 0]]" TimeoutError "[]"])
      (simp_all add: a resolved_attr)
  then have d: "discover_attributes_extended zcl sleepy = Raises TimeoutError"
    by (simp add: discover_attributes_extended_def)
  have r': "discover_commands_received sleepy True = Raises TimeoutError"
    by (rule received_other_error [of sleepy "[[0x00]]" TimeoutError "[]"]) (simp_all add: r)
  have g': "discover_commands_generated sleepy True = Raises TimeoutError"
    by (rule generated_other_error [of sleepy "[[0x00]]" TimeoutError "[]"]) (simp_all add: g)
  from a r g p d r' g' show ?thesis by (intro conjI)
qed

text \<open>
  Claim C3, as the code has it. The answers of the device are pages \<open>ps\<close> with the
  completion flag false and then an answer that is not a page; for the attributes, the type
  of every record of these pages can be written. When that answer is a delivery error that
  has outlasted the retries, or a status in place of a page, the loop ends there: the
  function returns, no exception leaves it, and the dictionary of the loop holds the records
  of the pages \<open>ps\<close> and nothing else. When that answer is any other exception, a timeout
  that has outlasted the retries for one, the exception leaves the function.
\<close>

theorem paginator_breaks_early:
  "(attributes_extended_answers cl = map more ps @ bad # rest
      \<and> (\<forall>r \<in> set (concat ps). resolved fnd r) \<and> breaks bad \<longrightarrow>
      (\<exists>result.
         snd (paginate (attr_body fnd cl) (attributes_extended_answers cl) (0, []))
           = Returns result
         \<and> distinct (map fst result)
         \<and> fst ` set result = attrid ` set (concat ps)
         \<and> (\<forall>k. map_option Returns (map_of result k)
                  = map_option (attr_entry_of fnd cl) (latest attrid (concat ps) k))))
   \<and> (commands_received_answers cl = map more qs @ bad' # rest' \<and> breaks bad' \<longrightarrow>
      (\<exists>out.
         discover_commands_received cl is_server = Returns out
         \<and> distinct (map fst out)
         \<and> fst ` set out = (\<lambda>c. format_02x (unat c)) ` set (concat qs)
         \<and> (\<forall>c \<in> set (concat qs).
               map_of out (format_02x (unat c)) = Some (received_entry cl c))))
   \<and> (commands_generated_answers cl = map more gs @ bad'' # rest'' \<and> breaks bad'' \<longrightarrow>
      (\<exists>out.
         discover_commands_generated cl is_server = Returns out
         \<and> distinct (map fst out)
         \<and> fst ` set out = (\<lambda>c. format_02x (unat c)) ` set (concat gs)
         \<and> (\<forall>c \<in> set (concat gs).
               map_of out (format_02x (unat c)) = Some (generated_entry cl c))))
   \<and> (attributes_extended_answers cl = map more ps @ Fails ex # rest
      \<and> (\<forall>r \<in> set (concat ps). resolved fnd r) \<and> ex \<noteq> DeliveryError \<longrightarrow>
      snd (paginate (attr_body fnd cl) (attributes_extended_answers cl) (0, [])) = Raises ex
      \<and> discover_attributes_extended fnd cl = Raises ex)
   \<and> (commands_received_answers cl = map more qs @ Fails ex' # rest' \<and> ex' \<noteq> DeliveryError \<longrightarrow>
      discover_commands_received cl is_server = Raises ex')
   \<and> (commands_generated_answers cl = map more gs @ Fails ex'' # rest''
      \<and> ex'' \<noteq> DeliveryError \<longrightarrow>
      discover_commands_generated cl is_server = Raises ex'')"
proof (intro conjI impI)
  assume "attributes_extended_answers cl = map more ps @ bad # rest
          \<and> (\<forall>r \<in> set (concat ps). resolved fnd r) \<and> breaks bad"
  then show "\<exists>result.
         snd (paginate (attr_body fnd cl) (attributes_extended_answers cl) (0, []))
           = Returns result
         \<and> distinct (map fst result)
         \<and> fst ` set result = attrid ` set (concat ps)
         \<and> (\<forall>k. map_option Returns (map_of result k)
                  = map_option (attr_entry_of fnd cl) (latest attrid (concat ps) k))"
    using attributes_breaks [of cl ps bad rest fnd] by (auto simp: stored_def)
next
  assume "commands_received_answers cl = map more qs @ bad' # rest' \<and> breaks bad'"
  then show "\<exists>out.
         discover_commands_received cl is_server = Returns out
         \<and> distinct (map fst out)
         \<and> fst ` set out = (\<lambda>c. format_02x (unat c)) ` set (concat qs)
         \<and> (\<forall>c \<in> set (concat qs).
               map_of out (format_02x (unat c)) = Some (received_entry cl c))"
    using received_breaks [of cl qs bad' rest' is_server] by blast
next
  assume "commands_generated_answers cl = map more gs @ bad'' # rest'' \<and> breaks bad''"
  then show "\<exists>out.
         discover_commands_generated cl is_server = Returns out
         \<and> distinct (map fst out)
         \<and> fst ` set out = (\<lambda>c. format_02x (unat c)) ` set (concat gs)
         \<and> (\<forall>c \<in> set (concat gs).
               map_of out (format_02x (unat c)) = Some (generated_entry cl c))"
    using generated_breaks [of cl gs bad'' rest'' is_server] by blast
next
  assume a: "attributes_extended_answers cl = map more ps @ Fails ex # rest
          \<and> (\<forall>r \<in> set (concat ps). resolved fnd r) \<and> ex \<noteq> DeliveryError"
  then show p: "snd (paginate (attr_body fnd cl) (attributes_extended_answers cl) (0, []))
             = Raises ex"
    using attributes_other_error [of cl ps ex rest fnd] by blast
  then show "discover_attributes_extended fnd cl = Raises ex"
    by (simp add: discover_attributes_extended_def)
next
  assume "commands_received_answers cl = map more qs @ Fails ex' # rest' \<and> ex' \<noteq> DeliveryError"
  then show "discover_commands_received cl is_server = Raises ex'"
    using received_other_error [of cl qs ex' rest' is_server] by blast
next
  assume "commands_generated_answers cl = map more gs @ Fails ex'' # rest''
          \<and> ex'' \<noteq> DeliveryError"
  then show "discover_commands_generated cl is_server = Raises ex''"
    using generated_other_error [of cl gs ex'' rest'' is_server] by blast
qed

theorem paginator_breaks_early_witness:
  "(attributes_extended_answers basic = map more [[attr 4, attr 5]] @ Fails DeliveryError # []
      \<and> resolved zcl (attr 4) \<and> resolved zcl (attr 5)
      \<and> breaks (Fails DeliveryError :: (bool \<times> attr_rec page) call))
   \<and> (commands_received_answers basic = map more [[0x00]] @ Answer (False, Status 0x86) # []
      \<and> breaks (Answer (False, Status 0x86) :: (bool \<times> 8 word page) call))
   \<and> (commands_generated_answers basic = map more [[0x00]] @ Fails DeliveryError # []
      \<and> breaks (Fails DeliveryError :: (bool \<times> 8 word page) call))
   \<and> (\<exists>result.
         snd (paginate (attr_body zcl basic) (attributes_extended_answers basic) (0, []))
           = Returns result
         \<and> fst ` set result = attrid ` set (concat [[attr 4, attr 5]]))
   \<and> (\<exists>out. discover_commands_received basic True = Returns out
         \<and> 0x00 \<in> set (concat [[0x00 :: 8 word]])
         \<and> map_of out (format_02x (unat (0x00 :: 8 word))) = Some (received_entry basic 0x00))
   \<and> (\<exists>out. discover_commands_generated basic True = Returns out
         \<and> 0x00 \<in> set (concat [[0x00 :: 8 word]])
         \<and> map_of out (format_02x (unat (0x00 :: 8 word))) = Some (generated_entry basic 0x00))
   \<and> (attributes_extended_answers sleepy = map more [[attr 0]] @ Fails TimeoutError # []
      \<and> resolved zcl (attr 0))
   \<and> commands_received_answers sleepy = map more [[0x00]] @ Fails TimeoutError # []
   \<and> commands_generated_answers sleepy = map more [[0x00]] @ Fails TimeoutError # []
   \<and> discover_attributes_extended zcl sleepy = Raises TimeoutError
   \<and> discover_commands_received sleepy False = Raises TimeoutError
   \<and> discover_commands_generated sleepy False = Raises TimeoutError"
proof -
  have a: "attributes_extended_answers basic = map more [[attr 4, attr 5]] @ Fails DeliveryError # []
           \<and> (\<forall>r \<in> set (concat [[attr 4, attr 5]]). resolved zcl r)
           \<and> breaks (Fails DeliveryError :: (bool \<times> attr_rec page) call)"
    and r: "commands_received_answers basic = map more [[0x00]] @ Answer (False, Status 0x86) # []
           \<and> breaks (Answer (False, Status 0x86) :: (bool \<times> 8 word page) call)"
    and g: "commands_generated_answers basic = map more [[0x00]] @ Fails DeliveryError # []
           \<and> breaks (Fails DeliveryError :: (bool \<times> 8 word page) call)"
    by (simp_all add: basic_def resolved_attr)
  have sa: "attributes_extended_answers sleepy = map more [[attr 0]] @ Fails TimeoutError # []
           \<and> (\<forall>r \<in> set (concat [[attr 0]]). resolved zcl r) \<and> TimeoutError \<noteq> DeliveryError"
    and sr: "commands_received_answers sleepy = map more [[0x00]] @ Fails TimeoutError # []"
    and sg: "commands_generated_answers sleepy = map more [[0x00]] @ Fails TimeoutError # []"
    by (simp_all add: sleepy_def resolved_attr)
  have ne: "TimeoutError \<noteq> DeliveryError" by simp
  note inst = paginator_breaks_early [of basic "[[attr 4, attr 5]]" "Fails DeliveryError" "[]"
      zcl "[[0x00]]" "Answer (False, Status 0x86)" "[]" True "[[0x00]]" "Fails DeliveryError" "[]"]
  note slow = paginator_breaks_early [of sleepy "[[attr 0]]" "Fails TimeoutError" "[]"
      zcl "[[0x00]]" "Fails TimeoutError" "[]" False "[[0x00]]" "Fails TimeoutError" "[]"
      TimeoutError TimeoutError TimeoutError]
  have m: "(0x00 :: 8 word) \<in> set (concat [[0x00 :: 8 word]])" by simp
  note e1 = inst [THEN conjunct1, THEN mp, OF a]
  have c4: "\<exists>result.
         snd (paginate (attr_body zcl basic) (attributes_extended_answers basic) (0, []))
           = Returns result
         \<and> fst ` set result = attrid ` set (concat [[attr 4, attr 5]])"
    using e1 by (elim exE conjE) (intro exI conjI, assumption, assumption)
  note e2 = inst [THEN conjunct2, THEN conjunct1, THEN mp, OF r]
  have c5: "\<exists>out. discover_commands_received basic True = Returns out
         \<and> 0x00 \<in> set (concat [[0x00 :: 8 word]])
         \<and> map_of out (format_02x (unat (0x00 :: 8 word))) = Some (received_entry basic 0x00)"
    using e2
    by (elim exE conjE) (intro exI conjI, assumption, rule m, erule bspec, rule m)
  note e3 = inst [THEN conjunct2, THEN conjunct2, THEN conjunct1, THEN mp, OF g]
  have c6: "\<exists>out. discover_commands_generated basic True = Returns out
         \<and> 0x00 \<in> set (concat [[0x00 :: 8 word]])
         \<and> map_of out (format_02x (unat (0x00 :: 8 word))) = Some (generated_entry basic 0x00)"
    using e3
    by (elim exE conjE) (intro exI conjI, assumption, rule m, erule bspec, rule m)
  note t = slow [THEN conjunct2, THEN conjunct2, THEN conjunct2]
  note t1 = t [THEN conjunct1, THEN mp, OF sa, THEN conjunct2]
  note t2 = t [THEN conjunct2, THEN conjunct1, THEN mp, OF conjI [OF sr ne]]
  note t3 = t [THEN conjunct2, THEN conjunct2, THEN mp, OF conjI [OF sg ne]]
  have ra: "resolved zcl (attr 4)" "resolved zcl (attr 5)" "resolved zcl (attr 0)"
    by (rule resolved_attr)+
  show ?thesis using a r g c4 c5 c6 sa sr sg t1 t2 t3 ra by (elim conjE) (intro conjI)
qed

section \<open>The start index of the next request\<close>

lemma last_sorted_Max:
  fixes xs :: "'a::linorder list"
  assumes "sorted xs" and "xs \<noteq> []"
  shows "last xs = Max (set xs)"
proof -
  have xs: "xs = butlast xs @ [last xs]" using assms(2) by simp
  then have "sorted (butlast xs @ [last xs])" using assms(1) by simp
  then have le: "\<forall>x \<in> set (butlast xs). x \<le> last xs" by (simp add: sorted_append)
  have "set xs = insert (last xs) (set (butlast xs))"
    using xs by (metis Un_insert_right append_Nil2 list.simps(15) set_append)
  then have "\<forall>x \<in> set xs. x \<le> last xs" using le by auto
  then show ?thesis using assms(2) by (intro Max_eqI [symmetric]) auto
qed

lemma next_start:
  fixes key :: "'r \<Rightarrow> 'a::len word"
  assumes body: "\<And>r st. body r st
                  = and_then (entry r) (\<lambda>e. Returns (unat (key r) + 1, setitem (snd st) (store r) e))"
    and i: "i < length ps"
    and l: "Suc i < length (fst (paginate body (map more ps @ rest) st))"
  shows "fst (paginate body (map more ps @ rest) st) ! Suc i
         = (if ps ! i = [] then fst (paginate body (map more ps @ rest) st) ! i
            else unat (key (last (ps ! i))) + 1)"
    and "ps ! i \<noteq> [] \<and> sorted (map key (ps ! i)) \<longrightarrow>
         fst (paginate body (map more ps @ rest) st) ! Suc i
         = unat (Max (key ` set (ps ! i))) + 1"
proof -
  let ?asked = "fst (paginate body (map more ps @ rest) st)"
  show s: "?asked ! Suc i = (if ps ! i = [] then ?asked ! i else unat (key (last (ps ! i))) + 1)"
    by (rule paginate_next [of body entry "\<lambda>r. unat (key r) + 1" store, OF body i l])
  show "ps ! i \<noteq> [] \<and> sorted (map key (ps ! i)) \<longrightarrow>
        ?asked ! Suc i = unat (Max (key ` set (ps ! i))) + 1"
  proof
    assume a: "ps ! i \<noteq> [] \<and> sorted (map key (ps ! i))"
    then have "last (map key (ps ! i)) = Max (set (map key (ps ! i)))"
      by (intro last_sorted_Max) simp_all
    then have "key (last (ps ! i)) = Max (key ` set (ps ! i))"
      using a by (simp add: last_map)
    then show "?asked ! Suc i = unat (Max (key ` set (ps ! i))) + 1"
      using s a by simp
  qed
qed

lemma attributes_asked_length:
  "i < length ps \<Longrightarrow> \<forall>r \<in> set (concat (take (Suc i) ps)). resolved fnd r \<Longrightarrow>
   Suc i < length (fst (paginate (attr_body fnd cl) (map more ps @ rest) st))"
  using paginate_asked_length [of "attr_body fnd cl" "attr_entry_of fnd cl"
      "\<lambda>r. unat (attrid r) + 1" attrid i ps rest st, OF attr_body_stores]
    attr_entries_resolved [of "concat (take (Suc i) ps)" fnd cl]
  by blast

lemma received_asked_length:
  "i < length ps \<Longrightarrow>
   Suc i < length (fst (paginate (received_body cl) (map more ps @ rest) st))"
  using paginate_asked_length [of "received_body cl" "\<lambda>c. Returns (received_entry cl c)"
      "\<lambda>c. unat c + 1" "\<lambda>c. format_02x (unat c)" i ps rest st, OF received_body_stores]
  by blast

lemma generated_asked_length:
  "i < length ps \<Longrightarrow>
   Suc i < length (fst (paginate (generated_body cl) (map more ps @ rest) st))"
  using paginate_asked_length [of "generated_body cl" "\<lambda>c. Returns (generated_entry cl c)"
      "\<lambda>c. unat c + 1" "\<lambda>c. format_02x (unat c)" i ps rest st, OF generated_body_stores]
  by blast

text \<open>
  Claim C7, as the code has it. After a page that is not the last, the start index of the
  next request is one plus the id of the last record of the page, and the start index of the
  request before when the page is empty. This is one plus the highest id of the page whenever
  the ids of the page are in ascending order. After a page of commands there is a next
  request; after a page of attributes there is one when the type of every record up to the
  end of this page can be written, and whenever there is one its start index is as said.
\<close>

theorem next_start_after_page:
  "(i < length ps \<longrightarrow>
      ((\<forall>r \<in> set (concat (take (Suc i) ps)). resolved fnd r) \<longrightarrow>
         Suc i < length (fst (paginate (attr_body fnd cl) (map more ps @ rest) (0, []))))
      \<and> (Suc i < length (fst (paginate (attr_body fnd cl) (map more ps @ rest) (0, []))) \<longrightarrow>
         fst (paginate (attr_body fnd cl) (map more ps @ rest) (0, [])) ! Suc i
          = (if ps ! i = []
             then fst (paginate (attr_body fnd cl) (map more ps @ rest) (0, [])) ! i
             else unat (attrid (last (ps ! i))) + 1)
         \<and> (ps ! i \<noteq> [] \<and> sorted (map attrid (ps ! i)) \<longrightarrow>
             fst (paginate (attr_body fnd cl) (map more ps @ rest) (0, [])) ! Suc i
             = unat (Max (attrid ` set (ps ! i))) + 1)))
   \<and> (j < length qs \<longrightarrow>
      Suc j < length (fst (paginate (received_body cl) (map more qs @ rest') (0, [])))
      \<and> fst (paginate (received_body cl) (map more qs @ rest') (0, [])) ! Suc j
          = (if qs ! j = []
             then fst (paginate (received_body cl) (map more qs @ rest') (0, [])) ! j
             else unat (last (qs ! j)) + 1)
      \<and> (qs ! j \<noteq> [] \<and> sorted (qs ! j) \<longrightarrow>
          fst (paginate (received_body cl) (map more qs @ rest') (0, [])) ! Suc j
          = unat (Max (set (qs ! j))) + 1))
   \<and> (j' < length gs \<longrightarrow>
      Suc j' < length (fst (paginate (generated_body cl) (map more gs @ rest'') (0, [])))
      \<and> fst (paginate (generated_body cl) (map more gs @ rest'') (0, [])) ! Suc j'
          = (if gs ! j' = []
             then fst (paginate (generated_body cl) (map more gs @ rest'') (0, [])) ! j'
             else unat (last (gs ! j')) + 1)
      \<and> (gs ! j' \<noteq> [] \<and> sorted (gs ! j') \<longrightarrow>
          fst (paginate (generated_body cl) (map more gs @ rest'') (0, [])) ! Suc j'
          = unat (Max (set (gs ! j'))) + 1))"
proof (intro conjI impI)
  assume i: "i < length ps"
    and "\<forall>r \<in> set (concat (take (Suc i) ps)). resolved fnd r"
  then show "Suc i < length (fst (paginate (attr_body fnd cl) (map more ps @ rest) (0, [])))"
    by (rule attributes_asked_length)
next
  assume i: "i < length ps"
    and l: "Suc i < length (fst (paginate (attr_body fnd cl) (map more ps @ rest) (0, [])))"
  note n = next_start [of "attr_body fnd cl" "attr_entry_of fnd cl" attrid attrid i ps rest
      "(0, [])", OF attr_body_stores i l]
  show "fst (paginate (attr_body fnd cl) (map more ps @ rest) (0, [])) ! Suc i
          = (if ps ! i = []
             then fst (paginate (attr_body fnd cl) (map more ps @ rest) (0, [])) ! i
             else unat (attrid (last (ps ! i))) + 1)"
    by (rule n(1))
  assume "ps ! i \<noteq> [] \<and> sorted (map attrid (ps ! i))"
  then show "fst (paginate (attr_body fnd cl) (map more ps @ rest) (0, [])) ! Suc i
          = unat (Max (attrid ` set (ps ! i))) + 1"
    using n(2) by (rule mp [rotated])
next
  assume j: "j < length qs"
  have l: "Suc j < length (fst (paginate (received_body cl) (map more qs @ rest') (0, [])))"
    by (rule received_asked_length [OF j])
  note n = next_start [of "received_body cl" "\<lambda>c. Returns (received_entry cl c)" "\<lambda>c. c"
      "\<lambda>c. format_02x (unat c)" j qs rest' "(0, [])", OF received_body_stores j l]
  show "Suc j < length (fst (paginate (received_body cl) (map more qs @ rest') (0, [])))"
    by (rule l)
  show "fst (paginate (received_body cl) (map more qs @ rest') (0, [])) ! Suc j
          = (if qs ! j = []
             then fst (paginate (received_body cl) (map more qs @ rest') (0, [])) ! j
             else unat (last (qs ! j)) + 1)"
    by (rule n(1))
  assume "qs ! j \<noteq> [] \<and> sorted (qs ! j)"
  then show "fst (paginate (received_body cl) (map more qs @ rest') (0, [])) ! Suc j
          = unat (Max (set (qs ! j))) + 1"
    using n(2) by simp
next
  assume j: "j' < length gs"
  have l: "Suc j' < length (fst (paginate (generated_body cl) (map more gs @ rest'') (0, [])))"
    by (rule generated_asked_length [OF j])
  note n = next_start [of "generated_body cl" "\<lambda>c. Returns (generated_entry cl c)" "\<lambda>c. c"
      "\<lambda>c. format_02x (unat c)" j' gs rest'' "(0, [])", OF generated_body_stores j l]
  show "Suc j' < length (fst (paginate (generated_body cl) (map more gs @ rest'') (0, [])))"
    by (rule l)
  show "fst (paginate (generated_body cl) (map more gs @ rest'') (0, [])) ! Suc j'
          = (if gs ! j' = []
             then fst (paginate (generated_body cl) (map more gs @ rest'') (0, [])) ! j'
             else unat (last (gs ! j')) + 1)"
    by (rule n(1))
  assume "gs ! j' \<noteq> [] \<and> sorted (gs ! j')"
  then show "fst (paginate (generated_body cl) (map more gs @ rest'') (0, [])) ! Suc j'
          = unat (Max (set (gs ! j'))) + 1"
    using n(2) by simp
qed

lemma received_asked_on_off:
  "fst (paginate (received_body on_off) (commands_received_answers on_off) (0, [])) = [0, 2]"
  by (simp add: on_off_def paginate_more paginate_final_step received_body_def)

text \<open>
  In the example the first page of commands received lists 0x42 and then 0x01: the next
  request starts at 2, and one plus the highest id of the page is 67.
\<close>

theorem next_start_counterexample:
  "fst (paginate (received_body on_off) (commands_received_answers on_off) (0, [])) ! 1 = 2
   \<and> unat (Max (set [0x42, 0x01 :: 8 word])) + 1 = 67"
  by (simp add: received_asked_on_off)

theorem next_start_after_page_witness:
  "(0 :: nat) < length [[attr 0, attr 1, attr 2, attr 3]]
   \<and> resolved zcl (attr 0) \<and> resolved zcl (attr 1) \<and> resolved zcl (attr 2)
   \<and> resolved zcl (attr 3)
   \<and> Suc 0 < length (fst (paginate (attr_body zcl on_off)
            (map more [[attr 0, attr 1, attr 2, attr 3]] @ [final [attr 4]]) (0, [])))
   \<and> [[attr 0, attr 1, attr 2, attr 3]] ! 0 \<noteq> []
   \<and> sorted (map attrid ([[attr 0, attr 1, attr 2, attr 3]] ! 0))
   \<and> fst (paginate (attr_body zcl on_off)
            (map more [[attr 0, attr 1, attr 2, attr 3]] @ [final [attr 4]]) (0, [])) ! Suc 0
      = unat (Max (attrid ` set ([[attr 0, attr 1, attr 2, attr 3]] ! 0))) + 1
   \<and> (0 :: nat) < length [[0x42, 0x01 :: 8 word]]
   \<and> fst (paginate (received_body on_off)
            (map more [[0x42, 0x01]] @ [final [0x00]]) (0, [])) ! Suc 0
      = unat (last ([[0x42, 0x01 :: 8 word]] ! 0)) + 1
   \<and> (0 :: nat) < length [[] :: 8 word list]
   \<and> fst (paginate (generated_body on_off) (map more [[]] @ [final [0x00]]) (0, [])) ! Suc 0
      = fst (paginate (generated_body on_off) (map more [[]] @ [final [0x00]]) (0, [])) ! 0"
proof -
  have l1: "(0 :: nat) < length [[attr 0, attr 1, attr 2, attr 3]]"
    and l2: "(0 :: nat) < length [[0x42, 0x01 :: 8 word]]"
    and l3: "(0 :: nat) < length [[] :: 8 word list]"
    by simp_all
  have r: "\<forall>r \<in> set (concat (take (Suc 0) [[attr 0, attr 1, attr 2, attr 3]])). resolved zcl r"
    by (simp add: resolved_attr)
  have s: "[[attr 0, attr 1, attr 2, attr 3]] ! 0 \<noteq> []
           \<and> sorted (map attrid ([[attr 0, attr 1, attr 2, attr 3]] ! 0))"
    by (simp add: attr_def)
  note inst = next_start_after_page [of 0 "[[attr 0, attr 1, attr 2, attr 3]]" zcl on_off
      "[final [attr 4]]" 0 "[[0x42, 0x01]]" "[final [0x00]]" 0 "[[]]" "[final [0x00]]"]
  note a = inst [THEN conjunct1, THEN mp, OF l1]
  note a1 = a [THEN conjunct1, THEN mp, OF r]
  note a2 = a [THEN conjunct2, THEN mp, OF a1]
  note a3 = a2 [THEN conjunct2, THEN mp, OF s]
  note b = inst [THEN conjunct2, THEN conjunct1, THEN mp, OF l2]
  have b2: "fst (paginate (received_body on_off)
            (map more [[0x42, 0x01]] @ [final [0x00]]) (0, [])) ! Suc 0
      = unat (last ([[0x42, 0x01 :: 8 word]] ! 0)) + 1"
    using b [THEN conjunct2, THEN conjunct1] by simp
  note c = inst [THEN conjunct2, THEN conjunct2, THEN mp, OF l3]
  have c2: "fst (paginate (generated_body on_off) (map more [[]] @ [final [0x00]]) (0, [])) ! Suc 0
      = fst (paginate (generated_body on_off) (map more [[]] @ [final [0x00]]) (0, [])) ! 0"
    using c [THEN conjunct2, THEN conjunct1] by simp
  have ra: "resolved zcl (attr 0)" "resolved zcl (attr 1)" "resolved zcl (attr 2)"
    "resolved zcl (attr 3)"
    by (rule resolved_attr)+
  show ?thesis using l1 ra a1 s a3 l2 b2 l3 c2 by (elim conjE) (intro conjI)
qed

section \<open>Reading the values\<close>

lemma concat_batches: "concat (batches xs) = xs"
  by (induction xs rule: batches.induct) (simp add: batches.simps)

lemma batches_size: "b \<in> set (batches xs) \<Longrightarrow> b \<noteq> [] \<and> length b \<le> 4"
proof (induction xs rule: batches.induct)
  case (1 xs)
  show ?case
  proof (cases "xs = []")
    case True
    with "1.prems" show ?thesis by (simp add: batches.simps)
  next
    case False
    then have "b = take 4 xs \<or> b \<in> set (batches (drop 4 xs))"
      using "1.prems" by (simp add: batches.simps [of xs])
    then show ?thesis using "1.IH" [OF False] False by auto
  qed
qed

lemma ceil4_step: "0 < (n::nat) \<Longrightarrow> Suc ((n - 4 + 3) div 4) = (n + 3) div 4"
proof (cases "n < 4")
  case True
  assume "0 < n"
  with True have "n = 1 \<or> n = 2 \<or> n = 3" by linarith
  then show ?thesis by auto
next
  case False
  then have "n + 3 = (n - 4 + 3) + 4" by simp
  then have "(n + 3) div 4 = ((n - 4 + 3) + 4) div 4" by simp
  also have "\<dots> = Suc ((n - 4 + 3) div 4)" by (simp only: div_add_self2)
  finally show ?thesis by simp
qed

lemma length_batches: "length (batches xs) = (length xs + 3) div 4"
proof (induction xs rule: batches.induct)
  case (1 xs)
  show ?case
  proof (cases "xs = []")
    case True
    then show ?thesis by (simp add: batches.simps)
  next
    case False
    then have "0 < length xs" by simp
    then have "Suc ((length xs - 4 + 3) div 4) = (length xs + 3) div 4" by (rule ceil4_step)
    then show ?thesis using "1.IH" [OF False] False by (simp add: batches.simps [of xs])
  qed
qed

lemma store_values_keys:
  "store_values success result = Returns result' \<Longrightarrow> map fst result' = map fst result"
proof (induction success arbitrary: result)
  case Nil then show ?case by simp
next
  case (Cons kv success)
  obtain a v where kv: "kv = (a, v)" by (cases kv)
  from Cons.prems kv obtain entry where e: "map_of result a = Some entry"
    and s: "store_values success
              (setitem result a (entry\<lparr>attribute_value := Some (decode_value v)\<rparr>)) = Returns result'"
    by (auto split: option.splits)
  have "a \<in> fst ` set result" using e by (metis map_of_eq_None_iff option.distinct(1))
  then show ?case using Cons.IH [OF s] by (simp add: setitem_keys_same)
qed

lemma store_values_answered: "store_values success result \<noteq> Unanswered"
  by (induction success arbitrary: result) (auto split: option.splits)

lemma store_values_returns:
  "fst ` set success \<subseteq> fst ` set result \<Longrightarrow> \<exists>result'. store_values success result = Returns result'"
proof (induction success arbitrary: result)
  case Nil then show ?case by simp
next
  case (Cons kv success)
  obtain a v where kv: "kv = (a, v)" by (cases kv)
  have a: "a \<in> fst ` set result" using Cons.prems kv by simp
  then obtain entry where e: "map_of result a = Some entry"
    by (metis map_of_eq_None_iff not_None_eq)
  let ?r = "setitem result a (entry\<lparr>attribute_value := Some (decode_value v)\<rparr>)"
  have "fst ` set ?r = fst ` set result" using a by (auto simp: keys_setitem)
  then have "fst ` set success \<subseteq> fst ` set ?r" using Cons.prems by simp
  then show ?case using Cons.IH [of ?r] by (simp add: kv e)
qed

lemma read_loop_asked_prefix: "\<exists>rest. batches to_read = fst (read_loop cl to_read result) @ rest"
proof (induction cl to_read result rule: read_loop.induct)
  case (1 cl to_read result)
  show ?case
  proof (cases "to_read = []")
    case True
    then show ?thesis by (simp add: read_loop.simps batches.simps)
  next
    case False
    then have t: "take 4 to_read \<noteq> []" by simp
    have b: "batches to_read = take 4 to_read # batches (drop 4 to_read)"
      using False by (simp add: batches.simps [of to_read])
    show ?thesis
    proof (cases "read_attributes cl (take 4 to_read)")
      case (Fails ex)
      show ?thesis
      proof (cases "ex = DeliveryError")
        case True
        then show ?thesis
          using "1.IH"(2) [OF t Fails] t Fails b
          by (auto simp: read_loop.simps [of cl to_read] split: prod.splits)
      next
        case False
        then show ?thesis using t Fails b by (simp add: read_loop.simps [of cl to_read])
      qed
    next
      case (Answer a)
      obtain success failed where a: "a = (success, failed)" by (cases a)
      show ?thesis
      proof (cases "store_values success result")
        case (Returns result')
        then show ?thesis
          using "1.IH"(1) [OF t Answer a [symmetric] Returns] t Answer a b
          by (auto simp: read_loop.simps [of cl to_read] split: prod.splits)
      next
        case (Raises ex)
        then show ?thesis using t Answer a b by (simp add: read_loop.simps [of cl to_read])
      next
        case Unanswered
        then show ?thesis using t Answer a b by (simp add: read_loop.simps [of cl to_read])
      qed
    qed
  qed
qed

lemma read_loop_asked_all:
  "snd (read_loop cl to_read result) = Returns result' \<Longrightarrow>
   fst (read_loop cl to_read result) = batches to_read"
proof (induction cl to_read result rule: read_loop.induct)
  case (1 cl to_read result)
  show ?case
  proof (cases "to_read = []")
    case True
    then show ?thesis by (simp add: read_loop.simps batches.simps)
  next
    case False
    then have t: "take 4 to_read \<noteq> []" by simp
    have b: "batches to_read = take 4 to_read # batches (drop 4 to_read)"
      using False by (simp add: batches.simps [of to_read])
    show ?thesis
    proof (cases "read_attributes cl (take 4 to_read)")
      case (Fails ex)
      show ?thesis
      proof (cases "ex = DeliveryError")
        case True
        then show ?thesis
          using "1.IH"(2) [OF t Fails] "1.prems" t Fails b
          by (auto simp: read_loop.simps [of cl to_read] split: prod.splits)
      next
        case False
        then show ?thesis
          using "1.prems" t Fails by (simp add: read_loop.simps [of cl to_read])
      qed
    next
      case (Answer a)
      obtain success failed where a: "a = (success, failed)" by (cases a)
      show ?thesis
      proof (cases "store_values success result")
        case (Returns r)
        then show ?thesis
          using "1.IH"(1) [OF t Answer a [symmetric] Returns] "1.prems" t Answer a b
          by (auto simp: read_loop.simps [of cl to_read] split: prod.splits)
      next
        case (Raises ex)
        then show ?thesis
          using "1.prems" t Answer a by (simp add: read_loop.simps [of cl to_read])
      next
        case Unanswered
        then show ?thesis
          using "1.prems" t Answer a by (simp add: read_loop.simps [of cl to_read])
      qed
    qed
  qed
qed

lemma read_loop_keys:
  "snd (read_loop cl to_read result) = Returns result' \<Longrightarrow> map fst result' = map fst result"
proof (induction cl to_read result rule: read_loop.induct)
  case (1 cl to_read result)
  show ?case
  proof (cases "to_read = []")
    case True
    then show ?thesis using "1.prems" by (simp add: read_loop.simps)
  next
    case False
    then have t: "take 4 to_read \<noteq> []" by simp
    show ?thesis
    proof (cases "read_attributes cl (take 4 to_read)")
      case (Fails ex)
      show ?thesis
      proof (cases "ex = DeliveryError")
        case True
        then show ?thesis
          using "1.IH"(2) [OF t Fails] "1.prems" t Fails
          by (auto simp: read_loop.simps [of cl to_read] split: prod.splits)
      next
        case False
        then show ?thesis
          using "1.prems" t Fails by (simp add: read_loop.simps [of cl to_read])
      qed
    next
      case (Answer a)
      obtain success failed where a: "a = (success, failed)" by (cases a)
      show ?thesis
      proof (cases "store_values success result")
        case (Returns r)
        then show ?thesis
          using "1.IH"(1) [OF t Answer a [symmetric] Returns] "1.prems" t Answer a
            store_values_keys [OF Returns]
          by (auto simp: read_loop.simps [of cl to_read] split: prod.splits)
      next
        case (Raises ex)
        then show ?thesis
          using "1.prems" t Answer a by (simp add: read_loop.simps [of cl to_read])
      next
        case Unanswered
        then show ?thesis
          using "1.prems" t Answer a by (simp add: read_loop.simps [of cl to_read])
      qed
    qed
  qed
qed

lemma tolerated_keys:
  "fst ` set r = fst ` set result \<Longrightarrow> tolerated r c = tolerated result c"
proof (cases c)
  case (Answer a)
  assume "fst ` set r = fst ` set result"
  then show ?thesis using Answer by (cases a) simp
next
  case (Fails ex)
  then show ?thesis by simp
qed

lemma read_loop_returns:
  "(\<And>chunk. tolerated result (read_attributes cl chunk)) \<Longrightarrow>
   \<exists>result'. snd (read_loop cl to_read result) = Returns result'"
proof (induction cl to_read result rule: read_loop.induct)
  case (1 cl to_read result)
  show ?case
  proof (cases "to_read = []")
    case True
    then show ?thesis by (simp add: read_loop.simps)
  next
    case False
    then have t: "take 4 to_read \<noteq> []" by simp
    show ?thesis
    proof (cases "read_attributes cl (take 4 to_read)")
      case (Fails ex)
      have "ex = DeliveryError" using "1.prems" [of "take 4 to_read"] Fails by simp
      then show ?thesis
        using "1.IH"(2) [OF t Fails] "1.prems" t Fails
        by (auto simp: read_loop.simps [of cl to_read] split: prod.splits)
    next
      case (Answer a)
      obtain success failed where a: "a = (success, failed)" by (cases a)
      have "fst ` set success \<subseteq> fst ` set result"
        using "1.prems" [of "take 4 to_read"] Answer a by simp
      then obtain r where r: "store_values success result = Returns r"
        using store_values_returns by blast
      have k: "fst ` set r = fst ` set result"
        using store_values_keys [OF r] by (metis list.set_map)
      have "\<And>chunk. tolerated r (read_attributes cl chunk)"
        using "1.prems" by (simp add: tolerated_keys [OF k])
      then show ?thesis
        using "1.IH"(1) [OF t Answer a [symmetric] r] t Answer a r
        by (auto simp: read_loop.simps [of cl to_read] split: prod.splits)
    qed
  qed
qed

text \<open>
  Claim C5, as the code has it. Every batch the Value Reader asks for has at least one and at
  most four ids, and the batches it asks for are, in order, the first of the consecutive
  groups of four of the id list. When the reader returns, it has asked for all of them: for
  \<open>N\<close> ids these are \<open>(N + 3) div 4\<close> batches, and put one after the other they are the id
  list. The reader returns when every read either fails with a delivery error or answers
  with values for ids that were discovered.
\<close>

theorem value_reader_batches:
  "(\<exists>rest. batches to_read = fst (read_loop cl to_read result) @ rest)
   \<and> (\<forall>b \<in> set (fst (read_loop cl to_read result)). b \<noteq> [] \<and> length b \<le> 4)
   \<and> (snd (read_loop cl to_read result) = Returns result' \<longrightarrow>
        length (fst (read_loop cl to_read result)) = (length to_read + 3) div 4
        \<and> concat (fst (read_loop cl to_read result)) = to_read)
   \<and> ((\<forall>chunk. tolerated result (read_attributes cl chunk)) \<longrightarrow>
        (\<exists>r. snd (read_loop cl to_read result) = Returns r))"
proof (intro conjI impI ballI)
  show p: "\<exists>rest. batches to_read = fst (read_loop cl to_read result) @ rest"
    by (rule read_loop_asked_prefix)
  fix b assume b: "b \<in> set (fst (read_loop cl to_read result))"
  from p obtain rest where "batches to_read = fst (read_loop cl to_read result) @ rest" ..
  then have "b \<in> set (batches to_read)" using b by simp
  then have s: "b \<noteq> [] \<and> length b \<le> 4" by (rule batches_size)
  show "b \<noteq> []" using s ..
  show "length b \<le> 4" using s ..
next
  assume r: "snd (read_loop cl to_read result) = Returns result'"
  show "length (fst (read_loop cl to_read result)) = (length to_read + 3) div 4"
    by (simp only: read_loop_asked_all [OF r] length_batches)
  show "concat (fst (read_loop cl to_read result)) = to_read"
    by (simp only: read_loop_asked_all [OF r] concat_batches)
next
  assume "\<forall>chunk. tolerated result (read_attributes cl chunk)"
  then show "\<exists>r. snd (read_loop cl to_read result) = Returns r"
    by (intro read_loop_returns) simp
qed

text \<open>The five attributes of the example, as the loop has them when it returns.\<close>

lemma format_04x_small:
  "format_04x 0 = ''0x0000''" "format_04x (Suc 0) = ''0x0001''" "format_04x 2 = ''0x0002''"
  "format_04x 3 = ''0x0003''" "format_04x 4 = ''0x0004''"
  by (simp_all add: format_04x_def zero_pad_def format_x.simps hex_digit_def char_of_eq_iff
      numeral_3_eq_3)

lemma str_nat_small:
  "str_nat (Suc 0) = ''1''" "str_nat 2 = ''2''" "str_nat 3 = ''3''" "str_nat 4 = ''4''"
  by (simp_all add: str_nat.simps char_of_eq_iff)

lemma attr_type_example: "attr_type_of zcl (attr a) = Returns (TypeNames ''uint8_t'' ''Analog'')"
  by (simp add: attr_type_of_def zcl_def attr_def)

lemma attr_entry_example:
  assumes "attributes cl = attributes on_off"
  shows "attr_entry_of zcl cl (attr 0) = Returns (uint8_entry ''0x0000'' ''on_off'')"
    and "attr_entry_of zcl cl (attr 1) = Returns (uint8_entry ''0x0001'' ''1'')"
    and "attr_entry_of zcl cl (attr 2) = Returns (uint8_entry ''0x0002'' ''2'')"
    and "attr_entry_of zcl cl (attr 3) = Returns (uint8_entry ''0x0003'' ''3'')"
    and "attr_entry_of zcl cl (attr 4) = Returns (uint8_entry ''0x0004'' ''4'')"
proof -
  have a: "attrid (attr 0) = 0" "attrid (attr 1) = 1" "attrid (attr 2) = 2"
    "attrid (attr 3) = 3" "attrid (attr 4) = 4" "\<And>a. acl (attr a) = 1"
    by (simp_all add: attr_def)
  have s: "attributes cl 0 = Some (''on_off'', ''Bool'')" "attributes cl 1 = None"
    "attributes cl 2 = None" "attributes cl 3 = None" "attributes cl 4 = None"
    by (simp_all add: assms on_off_def)
  have c: "AttributeAccessControl zcl 1 = Some (Some ''READ'')" by (simp add: zcl_def)
  show "attr_entry_of zcl cl (attr 0) = Returns (uint8_entry ''0x0000'' ''on_off'')"
    by (simp add: attr_entry_of_def attr_type_example a s c uint8_entry_def format_04x_small)
  show "attr_entry_of zcl cl (attr 1) = Returns (uint8_entry ''0x0001'' ''1'')"
    by (simp add: attr_entry_of_def attr_type_example a s c uint8_entry_def format_04x_small
        str_nat_small)
  show "attr_entry_of zcl cl (attr 2) = Returns (uint8_entry ''0x0002'' ''2'')"
    by (simp add: attr_entry_of_def attr_type_example a s c uint8_entry_def format_04x_small
        str_nat_small)
  show "attr_entry_of zcl cl (attr 3) = Returns (uint8_entry ''0x0003'' ''3'')"
    by (simp add: attr_entry_of_def attr_type_example a s c uint8_entry_def format_04x_small
        str_nat_small)
  show "attr_entry_of zcl cl (attr 4) = Returns (uint8_entry ''0x0004'' ''4'')"
    by (simp add: attr_entry_of_def attr_type_example a s c uint8_entry_def format_04x_small
        str_nat_small)
qed

lemma attributes_example:
  assumes s: "attributes cl = attributes on_off"
    and a: "attributes_extended_answers cl = attributes_extended_answers on_off"
  shows "snd (paginate (attr_body zcl cl) (attributes_extended_answers cl) (0, []))
         = Returns discovered"
proof -
  have i: "attrid (attr 0) = 0" "attrid (attr 1) = 1" "attrid (attr 2) = 2"
    "attrid (attr 3) = 3" "attrid (attr 4) = 4"
    by (simp_all add: attr_def)
  have "attributes_extended_answers cl = [more [attr 0, attr 1, attr 2, attr 3], final [attr 4]]"
    by (simp add: a on_off_def)
  then show ?thesis
    by (simp add: paginate_more paginate_final_step attr_body_def attr_entry_example [OF s] i
        setitem_def discovered_def)
qed

lemma on_off_discovered:
  "snd (paginate (attr_body zcl on_off) (attributes_extended_answers on_off) (0, []))
   = Returns discovered"
  by (rule attributes_example) simp_all

lemma timed_out_discovered:
  "snd (paginate (attr_body zcl timed_out) (attributes_extended_answers timed_out) (0, []))
   = Returns discovered"
  by (rule attributes_example) (simp_all add: timed_out_def)

lemma discovered_keys: "map fst discovered = [0, 1, 2, 3, 4]"
  by (simp add: discovered_def)

text \<open>
  In the example with reads that time out, five ids are discovered and the reader asks for
  one batch, not two: the timeout of the first read leaves the function.
\<close>

theorem value_reader_counterexample:
  "snd (paginate (attr_body zcl timed_out) (attributes_extended_answers timed_out) (0, []))
     = Returns discovered
   \<and> map fst discovered = [0, 1, 2, 3, 4]
   \<and> read_loop timed_out [0, 1, 2, 3, 4] discovered = ([[0, 1, 2, 3]], Raises TimeoutError)
   \<and> discover_attributes_extended zcl timed_out = Raises TimeoutError
   \<and> (length [0, 1, 2, 3, 4 :: 16 word] + 3) div 4 = 2"
proof -
  have r: "\<And>chunk. read_attributes timed_out chunk = Fails TimeoutError"
    by (simp add: timed_out_def)
  have l: "read_loop timed_out [0, 1, 2, 3, 4] discovered = ([[0, 1, 2, 3]], Raises TimeoutError)"
    by (simp add: read_loop.simps [of timed_out "[0, 1, 2, 3, 4]"] r)
  have d: "discover_attributes_extended zcl timed_out = Raises TimeoutError"
    by (simp add: discover_attributes_extended_def timed_out_discovered discovered_keys l)
  show ?thesis using timed_out_discovered discovered_keys l d by simp
qed

theorem value_reader_batches_witness:
  "(\<forall>chunk. tolerated discovered (read_attributes on_off chunk))
   \<and> (\<exists>r. snd (read_loop on_off [0, 1, 2, 3, 4] discovered) = Returns r)
   \<and> fst (read_loop on_off [0, 1, 2, 3, 4] discovered) = [[0, 1, 2, 3], [4]]
   \<and> length (fst (read_loop on_off [0, 1, 2, 3, 4] discovered))
      = (length [0, 1, 2, 3, 4 :: 16 word] + 3) div 4"
proof -
  have k: "fst ` set discovered = {0, 1, 2, 3, 4}"
    by (simp add: discovered_def)
  have t: "\<forall>chunk. tolerated discovered (read_attributes on_off chunk)"
    by (simp add: on_off_def k)
  have "\<exists>r. snd (read_loop on_off [0, 1, 2, 3, 4] discovered) = Returns r"
    by (rule value_reader_batches [of "[0, 1, 2, 3, 4]" on_off discovered,
          THEN conjunct2, THEN conjunct2, THEN conjunct2, THEN mp, OF t])
  then obtain r where r: "snd (read_loop on_off [0, 1, 2, 3, 4] discovered) = Returns r" ..
  have l: "length (fst (read_loop on_off [0, 1, 2, 3, 4] discovered))
           = (length [0, 1, 2, 3, 4 :: 16 word] + 3) div 4"
    by (rule value_reader_batches [of "[0, 1, 2, 3, 4]" on_off discovered r,
          THEN conjunct2, THEN conjunct2, THEN conjunct1, THEN mp, OF r, THEN conjunct1])
  have b: "batches [0, 1, 2, 3, 4 :: 16 word] = [[0, 1, 2, 3], [4]]"
    by (simp add: batches.simps)
  have a: "fst (read_loop on_off [0, 1, 2, 3, 4] discovered) = [[0, 1, 2, 3], [4]]"
    using read_loop_asked_all [OF r] b by simp
  show ?thesis using t r a l by (intro conjI exI)
qed

section \<open>The administrative commands\<close>

lemma leave_missing:
  "ieee_arg = None \<or> data = None \<or> data = Some [] \<Longrightarrow>
   leave lib a ieee_arg data w
   = (None, log_line WARNING ''Incorrect parameters for 'zdo.leave' command: %s'' w)"
  by (auto simp: leave_def split: option.splits list.splits)

lemma ieee_ping_missing:
  "ieee_ping a None data w
   = (None, log_line WARNING ''Incorrect parameters for 'ieee_ping' command: %s'' w)"
  by (simp add: ieee_ping_def)

lemma update_nwk_id_missing:
  "update_nwk_id lib a ieee_arg None w
   = (None, log_line ERROR ''Need NWK update id in the data'' w)"
  by (simp add: update_nwk_id_def)

lemma invoked_log_line: "invoked (log_line lvl msg w) = invoked w"
  by (simp add: log_line_def)

lemma logged_log_line: "logged (log_line lvl msg w) = logged w @ [(lvl, msg)]"
  by (simp add: log_line_def)

text \<open>With its parameters the leave command makes one call, to the parent.\<close>

lemma leave_sends:
  "invoked (snd (leave py net (Some [0x0a, 0x0b]) (Some ''1234'') quiet))
   = [Mgmt_Leave_req 0x1234 [0x0a, 0x0b] 0x02]"
  by (simp add: leave_def py_def net_def quiet_def get_device_nwk_def invoke_def log_line_def)

text \<open>
  Data that is there and is not the id of a network update: \<^verbatim>\<open>update_nwk_id\<close> raises
  before it makes a call, \<^verbatim>\<open>ValueError\<close> when the data is not a number and
  \<^verbatim>\<open>OverflowError\<close> when the number does not fit into a byte.
\<close>

lemma update_nwk_id_unfit:
  "uint8_t lib d = None \<Longrightarrow> update_nwk_id lib a ieee_arg (Some d) w = (Some ValueError, w)"
  "uint8_t lib d = Some n \<Longrightarrow> n < 0 \<or> 256 \<le> n \<Longrightarrow>
   update_nwk_id lib a ieee_arg (Some d) w = (Some OverflowError, w)"
  by (auto simp: update_nwk_id_def serialize_uint8_def)

lemma update_nwk_id_256:
  "update_nwk_id py net None (Some ''256'') quiet = (Some OverflowError, quiet)"
  by (rule update_nwk_id_unfit(2) [of py "''256''" 256]) (simp_all add: py_def)

lemma update_nwk_id_sends:
  "invoked (snd (update_nwk_id py net None (Some ''5'') quiet))
   = [Mgmt_NWK_Update_req [0xee, 0x00, 0xF8, 0xFF, 0x07, 0xFF, 0x05, 0x00, 0x00],
      getNetworkParameters]"
  by (simp add: update_nwk_id_def py_def net_def quiet_def serialize_uint8_def invoke_def
      log_line_def)

text \<open>What \<^verbatim>\<open>join_with_code\<close> does, whatever it is given.\<close>

lemma join_with_code_calls:
  "\<exists>rest. invoked (snd (join_with_code a ieee_arg data w))
     = invoked w @ addTransientLinkKey [0x04, 0xcf, 0x8c, 0xdf, 0x3c, 0x75, 0xe1, 0xe7]
                     (map of_char ''ZigBeeAlliance09'') # rest"
  by (cases "network a (addTransientLinkKey [0x04, 0xcf, 0x8c, 0xdf, 0x3c, 0x75, 0xe1, 0xe7]
                          (map of_char ''ZigBeeAlliance09''))";
      cases "network a (permit 60)")
    (simp_all add: join_with_code_def invoke_def log_line_def del: map_eq_conv list.map)

lemma join_with_code_permits:
  "network a (addTransientLinkKey [0x04, 0xcf, 0x8c, 0xdf, 0x3c, 0x75, 0xe1, 0xe7]
                (map of_char ''ZigBeeAlliance09'')) = Answer res \<Longrightarrow>
   invoked (snd (join_with_code a ieee_arg data w))
   = invoked w @ [addTransientLinkKey [0x04, 0xcf, 0x8c, 0xdf, 0x3c, 0x75, 0xe1, 0xe7]
                    (map of_char ''ZigBeeAlliance09''), permit 60]"
  by (cases "network a (permit 60)")
    (simp_all add: join_with_code_def invoke_def log_line_def del: list.map)

text \<open>
  Called with neither the address nor the data, \<^verbatim>\<open>join_with_code\<close> logs no warning and
  makes two calls into the network: it adds the link key of the node that is written into
  it, and it permits joining for 60 seconds.
\<close>

theorem join_with_code_counterexample:
  "invoked (snd (join_with_code net None None quiet))
     = [addTransientLinkKey [0x04, 0xcf, 0x8c, 0xdf, 0x3c, 0x75, 0xe1, 0xe7]
          (map of_char ''ZigBeeAlliance09''), permit 60]
   \<and> logged (snd (join_with_code net None None quiet)) = [(DEBUG, ''permit with key: %s'')]
   \<and> fst (join_with_code net None None quiet) = None"
  by (simp add: join_with_code_def net_def quiet_def invoke_def log_line_def del: list.map)

text \<open>
  Claim C8, as the code has it. A command that is called without an input it reads makes no
  call into the network: \<^verbatim>\<open>leave\<close> without the address or without the data (or with
  empty data) logs a warning and returns, \<^verbatim>\<open>ieee_ping\<close> without the address logs a
  warning and returns, and \<^verbatim>\<open>update_nwk_id\<close> without the data logs an error and returns.
  \<^verbatim>\<open>join_with_code\<close> reads neither the address nor the data and checks nothing: whatever
  it is given, it does what it does when both are missing, its first step is the call that
  adds the link key, and when that call answers the call that permits joining follows.
\<close>

theorem commands_validate_input:
  "((ieee_arg = None \<or> data = None \<or> data = Some []) \<longrightarrow>
      invoked (snd (leave lib a ieee_arg data w)) = invoked w
      \<and> fst (leave lib a ieee_arg data w) = None
      \<and> logged (snd (leave lib a ieee_arg data w))
          = logged w @ [(WARNING, ''Incorrect parameters for 'zdo.leave' command: %s'')])
   \<and> (ieee_arg = None \<longrightarrow>
      invoked (snd (ieee_ping a ieee_arg data w)) = invoked w
      \<and> fst (ieee_ping a ieee_arg data w) = None
      \<and> logged (snd (ieee_ping a ieee_arg data w))
          = logged w @ [(WARNING, ''Incorrect parameters for 'ieee_ping' command: %s'')])
   \<and> (data = None \<longrightarrow>
      invoked (snd (update_nwk_id lib a ieee_arg data w)) = invoked w
      \<and> fst (update_nwk_id lib a ieee_arg data w) = None
      \<and> logged (snd (update_nwk_id lib a ieee_arg data w))
          = logged w @ [(ERROR, ''Need NWK update id in the data'')])
   \<and> join_with_code a ieee_arg data w = join_with_code a None None w
   \<and> (\<exists>rest. invoked (snd (join_with_code a ieee_arg data w))
         = invoked w @ addTransientLinkKey [0x04, 0xcf, 0x8c, 0xdf, 0x3c, 0x75, 0xe1, 0xe7]
                         (map of_char ''ZigBeeAlliance09'') # rest)
   \<and> (network a (addTransientLinkKey [0x04, 0xcf, 0x8c, 0xdf, 0x3c, 0x75, 0xe1, 0xe7]
                    (map of_char ''ZigBeeAlliance09'')) = Answer res \<longrightarrow>
      invoked (snd (join_with_code a ieee_arg data w))
      = invoked w @ [addTransientLinkKey [0x04, 0xcf, 0x8c, 0xdf, 0x3c, 0x75, 0xe1, 0xe7]
                       (map of_char ''ZigBeeAlliance09''), permit 60])"
proof (intro conjI impI)
  assume m: "ieee_arg = None \<or> data = None \<or> data = Some []"
  show "invoked (snd (leave lib a ieee_arg data w)) = invoked w"
    by (simp only: leave_missing [OF m] snd_conv invoked_log_line)
  show "fst (leave lib a ieee_arg data w) = None"
    by (simp only: leave_missing [OF m] fst_conv)
  show "logged (snd (leave lib a ieee_arg data w))
        = logged w @ [(WARNING, ''Incorrect parameters for 'zdo.leave' command: %s'')]"
    by (simp only: leave_missing [OF m] snd_conv logged_log_line)
next
  assume m: "ieee_arg = None"
  show "invoked (snd (ieee_ping a ieee_arg data w)) = invoked w"
    by (simp only: m ieee_ping_missing snd_conv invoked_log_line)
  show "fst (ieee_ping a ieee_arg data w) = None"
    by (simp only: m ieee_ping_missing fst_conv)
  show "logged (snd (ieee_ping a ieee_arg data w))
        = logged w @ [(WARNING, ''Incorrect parameters for 'ieee_ping' command: %s'')]"
    by (simp only: m ieee_ping_missing snd_conv logged_log_line)
next
  assume m: "data = None"
  show "invoked (snd (update_nwk_id lib a ieee_arg data w)) = invoked w"
    by (simp only: m update_nwk_id_missing snd_conv invoked_log_line)
  show "fst (update_nwk_id lib a ieee_arg data w) = None"
    by (simp only: m update_nwk_id_missing fst_conv)
  show "logged (snd (update_nwk_id lib a ieee_arg data w))
        = logged w @ [(ERROR, ''Need NWK update id in the data'')]"
    by (simp only: m update_nwk_id_missing snd_conv logged_log_line)
next
  show "join_with_code a ieee_arg data w = join_with_code a None None w"
    by (simp add: join_with_code_def)
next
  show "\<exists>rest. invoked (snd (join_with_code a ieee_arg data w))
         = invoked w @ addTransientLinkKey [0x04, 0xcf, 0x8c, 0xdf, 0x3c, 0x75, 0xe1, 0xe7]
                         (map of_char ''ZigBeeAlliance09'') # rest"
    by (rule join_with_code_calls)
next
  assume "network a (addTransientLinkKey [0x04, 0xcf, 0x8c, 0xdf, 0x3c, 0x75, 0xe1, 0xe7]
                       (map of_char ''ZigBeeAlliance09'')) = Answer res"
  then show "invoked (snd (join_with_code a ieee_arg data w))
      = invoked w @ [addTransientLinkKey [0x04, 0xcf, 0x8c, 0xdf, 0x3c, 0x75, 0xe1, 0xe7]
                       (map of_char ''ZigBeeAlliance09''), permit 60]"
    by (rule join_with_code_permits)
qed

theorem commands_validate_input_witness:
  "((None :: 8 word list option) = None \<or> Some ''1234'' = None \<or> Some ''1234'' = Some [])
   \<and> invoked (snd (leave py net None (Some ''1234'') quiet)) = []
   \<and> logged (snd (leave py net None (Some ''1234'') quiet))
       = [(WARNING, ''Incorrect parameters for 'zdo.leave' command: %s'')]
   \<and> invoked (snd (ieee_ping net None (Some ''1234'') quiet)) = []
   \<and> invoked (snd (update_nwk_id py net None None quiet)) = []
   \<and> network net (addTransientLinkKey [0x04, 0xcf, 0x8c, 0xdf, 0x3c, 0x75, 0xe1, 0xe7]
                     (map of_char ''ZigBeeAlliance09'')) = Answer ''Status.SUCCESS''
   \<and> invoked (snd (join_with_code net None None quiet))
      = [addTransientLinkKey [0x04, 0xcf, 0x8c, 0xdf, 0x3c, 0x75, 0xe1, 0xe7]
           (map of_char ''ZigBeeAlliance09''), permit 60]"
proof -
  have m: "(None :: 8 word list option) = None \<or> Some ''1234'' = None \<or> Some ''1234'' = Some []"
    by simp
  have q: "invoked quiet = []" "logged quiet = []" by (simp_all add: quiet_def)
  have n: "network net (addTransientLinkKey [0x04, 0xcf, 0x8c, 0xdf, 0x3c, 0x75, 0xe1, 0xe7]
                          (map of_char ''ZigBeeAlliance09'')) = Answer ''Status.SUCCESS''"
    by (simp add: net_def)
  note l = commands_validate_input [of None "Some ''1234''" py net quiet,
      THEN conjunct1, THEN mp, OF m]
  note p = commands_validate_input [of None "Some ''1234''" py net quiet,
      THEN conjunct2, THEN conjunct1, THEN mp, OF refl]
  note u = commands_validate_input [of None None py net quiet,
      THEN conjunct2, THEN conjunct2, THEN conjunct1, THEN mp, OF refl]
  note j = commands_validate_input [of None None py net quiet "''Status.SUCCESS''",
      THEN conjunct2, THEN conjunct2, THEN conjunct2, THEN conjunct2, THEN conjunct2,
      THEN mp, OF n]
  have j': "invoked (snd (join_with_code net None None quiet))
      = [addTransientLinkKey [0x04, 0xcf, 0x8c, 0xdf, 0x3c, 0x75, 0xe1, 0xe7]
           (map of_char ''ZigBeeAlliance09''), permit 60]"
    using j by (simp only: q append_Nil)
  have l1: "invoked (snd (leave py net None (Some ''1234'') quiet)) = []"
    using l [THEN conjunct1] by (simp only: q)
  have l2: "logged (snd (leave py net None (Some ''1234'') quiet))
       = [(WARNING, ''Incorrect parameters for 'zdo.leave' command: %s'')]"
    using l [THEN conjunct2, THEN conjunct2] by (simp only: q append_Nil)
  have p1: "invoked (snd (ieee_ping net None (Some ''1234'') quiet)) = []"
    using p [THEN conjunct1] by (simp only: q)
  have u1: "invoked (snd (update_nwk_id py net None None quiet)) = []"
    using u [THEN conjunct1] by (simp only: q)
  show ?thesis using m l1 l2 p1 u1 n j' by (intro conjI)
qed

section \<open>The order of the keys of a report\<close>

lemma sorted_list_of_set_image_mono:
  fixes f :: "'a::linorder \<Rightarrow> 'b::linorder"
  assumes mono: "\<And>a b. (f a \<le> f b) = (a \<le> b)" and fin: "finite A"
  shows "sorted_list_of_set (f ` A) = map f (sorted_list_of_set A)"
proof -
  let ?xs = "sorted_list_of_set A"
  have inj: "inj f"
    by (rule injI) (metis mono order_antisym order_refl)
  have d: "distinct (map f ?xs)"
    using inj by (simp add: distinct_map inj_on_def)
  have "set (map f ?xs) = f ` A" using fin by simp
  then have "sorted_list_of_set (f ` A) = sort (map f ?xs)"
    using sort_distinct_set [OF d] by simp
  also have "\<dots> = map f (sort ?xs)" by (rule sort_map_mono [OF mono])
  also have "sort ?xs = ?xs" by (simp add: sort_key_id_if_sorted)
  finally show ?thesis .
qed

lemma strictly_ascending: "sorted_wrt (<) (sorted_list_of_set (A :: 'a::linorder set))"
  by (simp add: strict_sorted_iff)

lemma sorted_dict_keys_mono:
  fixes key :: "'a::linorder \<Rightarrow> 'k::linorder"
  assumes mono: "\<And>a b. (key a \<le> key b) = (a \<le> b)"
    and d: "distinct (map fst d)"
    and k: "fst ` set d = key ` A" and fin: "finite A"
  shows "map fst (OrderedDict (sorted_items d)) = map key (sorted_list_of_set A)"
proof -
  have "map fst (OrderedDict (sorted_items d)) = sort (map fst d)"
    using d by (simp add: OrderedDict_distinct keys_sorted_items)
  also have "\<dots> = sorted_list_of_set (set (map fst d))" by (rule sort_distinct_set [OF d])
  also have "set (map fst d) = key ` A" using k by simp
  also have "sorted_list_of_set (key ` A) = map key (sorted_list_of_set A)"
    by (rule sorted_list_of_set_image_mono [OF mono fin])
  finally show ?thesis .
qed

lemma lookup_all:
  "\<forall>a \<in> set ks. map_of r a \<noteq> None \<Longrightarrow>
   [(f a, e). a \<leftarrow> ks, Some e \<leftarrow> [map_of r a]] = map (\<lambda>a. (f a, the (map_of r a))) ks"
  by (induction ks) auto

lemma attributes_report_items:
  assumes d: "distinct (map fst result)"
  shows "attributes_report result
         = map (\<lambda>a. (format_04x (unat a), the (map_of result a)))
             (sorted_list_of_set (fst ` set result))"
proof -
  let ?ks = "sort (map fst result)"
  have ks: "?ks = sorted_list_of_set (fst ` set result)"
    using sort_distinct_set [OF d] by simp
  have "\<forall>a \<in> set ?ks. map_of result a \<noteq> None"
    by (simp add: map_of_eq_None_iff)
  then have l: "[(format_04x (unat a), e). a \<leftarrow> ?ks, Some e \<leftarrow> [map_of result a]]
             = map (\<lambda>a. (format_04x (unat a), the (map_of result a))) ?ks"
    by (rule lookup_all)
  have "distinct (map (\<lambda>a. format_04x (unat a)) ?ks)"
    using d by (simp add: distinct_map inj_on_def key04_eq)
  then have "distinct (map fst (map (\<lambda>a. (format_04x (unat a), the (map_of result a))) ?ks))"
    by (simp add: comp_def)
  then show ?thesis
    unfolding attributes_report_def l by (simp only: OrderedDict_distinct ks)
qed

lemma attributes_report_keys:
  "distinct (map fst result) \<Longrightarrow>
   map fst (attributes_report result)
   = map (\<lambda>a. format_04x (unat a)) (sorted_list_of_set (fst ` set result))"
  by (simp add: attributes_report_items comp_def)

text \<open>A dictionary with distinct keys is its keys with what is stored under them.\<close>

lemma dict_by_keys:
  assumes "distinct (map fst d)"
  shows "d = map (\<lambda>k. (k, the (map_of d k))) (map fst d)"
proof -
  have "\<And>p. p \<in> set d \<Longrightarrow> (fst p, the (map_of d (fst p))) = p"
  proof -
    fix p assume "p \<in> set d"
    then have "(fst p, snd p) \<in> set d" by simp
    then have "map_of d (fst p) = Some (snd p)"
      using map_of_eq_Some_iff [OF assms] by blast
    then show "(fst p, the (map_of d (fst p))) = p" by simp
  qed
  then have "map (\<lambda>p. (fst p, the (map_of d (fst p)))) d = d" by (rule map_idI)
  then show ?thesis by (simp add: comp_def)
qed

lemma sorted_items_same:
  assumes "set d1 = set d2" and d1: "distinct (map fst d1)" and d2: "distinct (map fst d2)"
  shows "sorted_items d1 = sorted_items d2"
proof -
  let ?s1 = "sorted_items d1" and ?s2 = "sorted_items d2"
  have k1: "map fst ?s1 = sort (map fst d1)" and k2: "map fst ?s2 = sort (map fst d2)"
    by (simp_all add: keys_sorted_items)
  have "set (map fst d1) = set (map fst d2)" using assms(1) by simp
  then have "sort (map fst d1) = sort (map fst d2)"
    using sort_distinct_set [OF d1] sort_distinct_set [OF d2] by simp
  then have k: "map fst ?s1 = map fst ?s2" using k1 k2 by simp
  have ds1: "distinct (map fst ?s1)" and ds2: "distinct (map fst ?s2)"
    using d1 d2 by (simp_all add: keys_sorted_items)
  have "set ?s1 = set ?s2" using assms(1) by (simp add: sorted_items_def)
  then have m: "map_of ?s1 = map_of ?s2"
    using ds1 ds2 by (simp add: map_of_inject_set)
  have "?s1 = map (\<lambda>k. (k, the (map_of ?s1 k))) (map fst ?s1)" by (rule dict_by_keys [OF ds1])
  also have "\<dots> = map (\<lambda>k. (k, the (map_of ?s2 k))) (map fst ?s2)" by (simp only: m k)
  also have "\<dots> = ?s2" by (rule dict_by_keys [OF ds2, symmetric])
  finally show ?thesis .
qed

lemma attributes_report_same:
  assumes "set d1 = set d2" and d1: "distinct (map fst d1)" and d2: "distinct (map fst d2)"
  shows "attributes_report d1 = attributes_report d2"
proof -
  have "map_of d1 = map_of d2" using assms by (simp add: map_of_inject_set)
  moreover have "fst ` set d1 = fst ` set d2" using assms(1) by simp
  ultimately show ?thesis by (simp add: attributes_report_items [OF d1] attributes_report_items [OF d2])
qed

text \<open>The reads change the values of the entries and nothing else.\<close>

lemma store_values_entries:
  "store_values success result = Returns result' \<Longrightarrow> map_of result k = Some e \<Longrightarrow>
   \<exists>v. map_of result' k = Some (e\<lparr>attribute_value := v\<rparr>)"
proof (induction success arbitrary: result e)
  case Nil
  then have "map_of result' k = Some (e\<lparr>attribute_value := attribute_value e\<rparr>)" by simp
  then show ?case ..
next
  case (Cons kv success)
  obtain a v where kv: "kv = (a, v)" by (cases kv)
  from Cons.prems(1) kv obtain entry where e: "map_of result a = Some entry"
    and s: "store_values success
              (setitem result a (entry\<lparr>attribute_value := Some (decode_value v)\<rparr>)) = Returns result'"
    by (auto split: option.splits)
  let ?r = "setitem result a (entry\<lparr>attribute_value := Some (decode_value v)\<rparr>)"
  show ?case
  proof (cases "k = a")
    case True
    then have "map_of ?r k = Some (e\<lparr>attribute_value := Some (decode_value v)\<rparr>)"
      using e Cons.prems(2) by (simp add: map_of_setitem)
    from Cons.IH [OF s this] show ?thesis by simp
  next
    case False
    then have "map_of ?r k = Some e" using Cons.prems(2) by (simp add: map_of_setitem)
    from Cons.IH [OF s this] show ?thesis .
  qed
qed

lemma read_loop_entries:
  "snd (read_loop cl to_read result) = Returns result' \<Longrightarrow> map_of result k = Some e \<Longrightarrow>
   \<exists>v. map_of result' k = Some (e\<lparr>attribute_value := v\<rparr>)"
proof (induction cl to_read result arbitrary: e rule: read_loop.induct)
  case (1 cl to_read result)
  show ?case
  proof (cases "to_read = []")
    case True
    then have "map_of result' k = Some (e\<lparr>attribute_value := attribute_value e\<rparr>)"
      using "1.prems" by (simp add: read_loop.simps)
    then show ?thesis ..
  next
    case False
    then have t: "take 4 to_read \<noteq> []" by simp
    show ?thesis
    proof (cases "read_attributes cl (take 4 to_read)")
      case (Fails ex)
      show ?thesis
      proof (cases "ex = DeliveryError")
        case True
        then have "snd (read_loop cl (drop 4 to_read) result) = Returns result'"
          using "1.prems"(1) t Fails
          by (auto simp: read_loop.simps [of cl to_read] split: prod.splits)
        then show ?thesis using "1.IH"(2) [OF t Fails True] "1.prems"(2) by blast
      next
        case False
        then show ?thesis
          using "1.prems" t Fails by (simp add: read_loop.simps [of cl to_read])
      qed
    next
      case (Answer a)
      obtain success failed where a: "a = (success, failed)" by (cases a)
      show ?thesis
      proof (cases "store_values success result")
        case (Returns r)
        have l: "snd (read_loop cl (drop 4 to_read) r) = Returns result'"
          using "1.prems"(1) t Answer a Returns
          by (auto simp: read_loop.simps [of cl to_read] split: prod.splits)
        obtain v where v: "map_of r k = Some (e\<lparr>attribute_value := v\<rparr>)"
          using store_values_entries [OF Returns "1.prems"(2)] ..
        obtain v' where "map_of result' k = Some (e\<lparr>attribute_value := v, attribute_value := v'\<rparr>)"
          using "1.IH"(1) [OF t Answer a [symmetric] Returns l v] ..
        then have "map_of result' k = Some (e\<lparr>attribute_value := v'\<rparr>)" by simp
        then show ?thesis ..
      next
        case (Raises ex)
        then show ?thesis
          using "1.prems" t Answer a by (simp add: read_loop.simps [of cl to_read])
      next
        case Unanswered
        then show ?thesis
          using "1.prems" t Answer a by (simp add: read_loop.simps [of cl to_read])
      qed
    qed
  qed
qed

text \<open>The maps of the three discoveries: their keys, in their order, and what is under them.\<close>

lemma map_of_map_key:
  assumes "\<And>a b. f a = f b \<Longrightarrow> a = b" and "a \<in> set xs"
  shows "map_of (map (\<lambda>a. (f a, g a)) xs) (f a) = Some (g a)"
  using assms(2) by (induction xs) (auto dest: assms(1))

lemma attributes_sorted:
  assumes "discover_attributes_extended fnd cl = Returns attrs"
  shows "map fst attrs
         = map (\<lambda>a. format_04x (unat a))
             (sorted_list_of_set (attrid ` set (consumed (attributes_extended_answers cl))))"
    and "latest attrid (consumed (attributes_extended_answers cl)) a = Some r \<Longrightarrow>
         \<exists>e v. attr_entry_of fnd cl r = Returns e
           \<and> map_of attrs (format_04x (unat a)) = Some (e\<lparr>attribute_value := v\<rparr>)"
proof -
  let ?recs = "consumed (attributes_extended_answers cl)"
  from assms obtain result result' where
    p: "snd (paginate (attr_body fnd cl) (attributes_extended_answers cl) (0, [])) = Returns result"
    and r: "snd (read_loop cl (map fst result) result) = Returns result'"
    and a: "attrs = attributes_report result'"
    by (auto simp: discover_attributes_extended_def and_then_Returns)
  have s: "stored attrid (attr_entry_of fnd cl) ?recs result" by (rule attributes_stored [OF p])
  have k: "map fst result' = map fst result" by (rule read_loop_keys [OF r])
  have d: "distinct (map fst result')" using stored_distinct [OF s] k by simp
  have ks: "fst ` set result' = attrid ` set ?recs"
    using stored_keys [OF s] k by (metis list.set_map)
  show "map fst attrs = map (\<lambda>a. format_04x (unat a)) (sorted_list_of_set (attrid ` set ?recs))"
    unfolding a using attributes_report_keys [OF d] by (simp only: ks)
  assume l: "latest attrid ?recs a = Some r"
  then have "map_option Returns (map_of result a) = Some (attr_entry_of fnd cl r)"
    using stored_map_of [OF s, of a] by simp
  then obtain e where e: "map_of result a = Some e" and r': "attr_entry_of fnd cl r = Returns e"
    by (cases "map_of result a") auto
  obtain v where v: "map_of result' a = Some (e\<lparr>attribute_value := v\<rparr>)"
    using read_loop_entries [OF r e] ..
  have "a \<in> fst ` set result'" using v by (metis map_of_eq_None_iff option.distinct(1))
  then have m: "a \<in> set (sorted_list_of_set (fst ` set result'))" by simp
  have "map_of attrs (format_04x (unat a)) = Some (the (map_of result' a))"
    unfolding a attributes_report_items [OF d]
    by (rule map_of_map_key [OF _ m]) (simp add: key04_eq)
  then have "map_of attrs (format_04x (unat a)) = Some (e\<lparr>attribute_value := v\<rparr>)"
    by (simp add: v)
  with r' show "\<exists>e v. attr_entry_of fnd cl r = Returns e
           \<and> map_of attrs (format_04x (unat a)) = Some (e\<lparr>attribute_value := v\<rparr>)"
    by blast
qed

lemma commands_sorted:
  fixes recs :: "8 word list"
  assumes s: "stored (\<lambda>c. format_02x (unat c)) entry recs d"
  shows "map fst (OrderedDict (sorted_items d))
         = map (\<lambda>c. format_02x (unat c)) (sorted_list_of_set (set recs))"
  by (rule sorted_dict_keys_mono [OF key02_le stored_distinct [OF s] stored_keys [OF s]]) simp

lemma received_sorted:
  assumes "discover_commands_received cl is_server = Returns out"
  shows "map fst out
         = map (\<lambda>c. format_02x (unat c))
             (sorted_list_of_set (set (consumed (commands_received_answers cl))))"
proof -
  from assms obtain d where
    d: "snd (paginate (received_body cl) (commands_received_answers cl) (0, [])) = Returns d"
    and out: "out = OrderedDict (sorted_items d)"
    by (auto simp: discover_commands_received_def and_then_Returns)
  show ?thesis unfolding out by (rule commands_sorted [OF received_stored [OF d]])
qed

lemma generated_sorted:
  assumes "discover_commands_generated cl is_server = Returns out"
  shows "map fst out
         = map (\<lambda>c. format_02x (unat c))
             (sorted_list_of_set (set (consumed (commands_generated_answers cl))))"
proof -
  from assms obtain d where
    d: "snd (paginate (generated_body cl) (commands_generated_answers cl) (0, [])) = Returns d"
    and out: "out = OrderedDict (sorted_items d)"
    by (auto simp: discover_commands_generated_def and_then_Returns)
  show ?thesis unfolding out by (rule commands_sorted [OF generated_stored [OF d]])
qed

lemma scan_clusters_keys:
  "scan_clusters fnd is_server cls acc = Returns d \<Longrightarrow> distinct (map fst acc) \<Longrightarrow>
   distinct (map fst d)
   \<and> fst ` set d = fst ` set acc \<union> (\<lambda>c. format_04x (unat (cluster_id c))) ` set cls"
proof (induction cls arbitrary: acc)
  case Nil
  then show ?case by simp
next
  case (Cons cl cls)
  from Cons.prems(1) obtain report where
    s: "scan_clusters fnd is_server cls
          (setitem acc (format_04x (unat (cluster_id cl))) report) = Returns d"
    by (auto simp: and_then_Returns)
  have "distinct (map fst (setitem acc (format_04x (unat (cluster_id cl))) report))"
    using Cons.prems(2) by (rule distinct_setitem)
  then show ?case using Cons.IH [OF s] by (auto simp: keys_setitem)
qed

lemma scan_endpoint_sorted:
  assumes "scan_endpoint fnd ep = Returns report"
  shows "\<exists>ins outs.
           report = [(''in_clusters'', ins), (''out_clusters'', outs)]
           \<and> map fst ins = map (\<lambda>c. format_04x (unat c))
                              (sorted_list_of_set (cluster_id ` set (in_clusters ep)))
           \<and> map fst outs = map (\<lambda>c. format_04x (unat c))
                               (sorted_list_of_set (cluster_id ` set (out_clusters ep)))"
proof -
  from assms obtain ci co where
    i: "scan_clusters fnd True (in_clusters ep) [] = Returns ci"
    and o: "scan_clusters fnd True (out_clusters ep) [] = Returns co"
    and r: "report = setitem (setitem [] ''in_clusters'' (OrderedDict (sorted_items ci)))
                       ''out_clusters'' (OrderedDict (sorted_items co))"
    by (auto simp: scan_endpoint_def and_then_Returns Let_def)
  have ki: "distinct (map fst ci)"
    "fst ` set ci = (\<lambda>c. format_04x (unat c)) ` (cluster_id ` set (in_clusters ep))"
    using scan_clusters_keys [OF i] by (simp_all add: image_image)
  have ko: "distinct (map fst co)"
    "fst ` set co = (\<lambda>c. format_04x (unat c)) ` (cluster_id ` set (out_clusters ep))"
    using scan_clusters_keys [OF o] by (simp_all add: image_image)
  have si: "map fst (OrderedDict (sorted_items ci))
            = map (\<lambda>c. format_04x (unat c)) (sorted_list_of_set (cluster_id ` set (in_clusters ep)))"
    by (rule sorted_dict_keys_mono [OF key04_le ki]) simp
  have so: "map fst (OrderedDict (sorted_items co))
            = map (\<lambda>c. format_04x (unat c)) (sorted_list_of_set (cluster_id ` set (out_clusters ep)))"
    by (rule sorted_dict_keys_mono [OF key04_le ko]) simp
  have "report = [(''in_clusters'', OrderedDict (sorted_items ci)),
                  (''out_clusters'', OrderedDict (sorted_items co))]"
    by (simp add: r setitem_def)
  then show ?thesis using si so by blast
qed

text \<open>
  Claim C4. The keys of the attribute map that \<^verbatim>\<open>discover_attributes_extended\<close> returns
  are the formatted ids of the records the loop has gone through, in ascending order of the
  ids, each once; under the key of an id is the entry of the last record with this id, with
  the value that was read. The keys of the two command maps are the formatted ids of the
  commands the loop has gone through, in ascending order, each once, and under the key of a
  command is its entry. The keys of the two cluster maps of an endpoint report are the
  formatted ids of the clusters in ascending order, each once. The maps do not depend on the
  order of arrival: two dictionaries with the same items give the same attribute map and
  the same sorted map.
\<close>

theorem reports_are_sorted:
  "(discover_attributes_extended fnd cl = Returns attrs \<longrightarrow>
      map fst attrs
        = map (\<lambda>a. format_04x (unat a))
            (sorted_list_of_set (attrid ` set (consumed (attributes_extended_answers cl))))
      \<and> (latest attrid (consumed (attributes_extended_answers cl)) a = Some r \<longrightarrow>
           (\<exists>e v. attr_entry_of fnd cl r = Returns e
              \<and> map_of attrs (format_04x (unat a)) = Some (e\<lparr>attribute_value := v\<rparr>))))
   \<and> (discover_commands_received cl is_server = Returns received \<longrightarrow>
      map fst received
        = map (\<lambda>c. format_02x (unat c))
            (sorted_list_of_set (set (consumed (commands_received_answers cl))))
      \<and> (\<forall>c \<in> set (consumed (commands_received_answers cl)).
           map_of received (format_02x (unat c)) = Some (received_entry cl c)))
   \<and> (discover_commands_generated cl is_server = Returns generated \<longrightarrow>
      map fst generated
        = map (\<lambda>c. format_02x (unat c))
            (sorted_list_of_set (set (consumed (commands_generated_answers cl))))
      \<and> (\<forall>c \<in> set (consumed (commands_generated_answers cl)).
           map_of generated (format_02x (unat c)) = Some (generated_entry cl c)))
   \<and> (scan_endpoint fnd ep = Returns report \<longrightarrow>
      (\<exists>ins outs.
         report = [(''in_clusters'', ins), (''out_clusters'', outs)]
         \<and> map fst ins = map (\<lambda>c. format_04x (unat c))
                            (sorted_list_of_set (cluster_id ` set (in_clusters ep)))
         \<and> map fst outs = map (\<lambda>c. format_04x (unat c))
                             (sorted_list_of_set (cluster_id ` set (out_clusters ep)))))
   \<and> (set d1 = set d2 \<and> distinct (map fst d1) \<and> distinct (map fst d2) \<longrightarrow>
      attributes_report d1 = attributes_report d2)
   \<and> (set e1 = set e2 \<and> distinct (map fst e1) \<and> distinct (map fst e2) \<longrightarrow>
      OrderedDict (sorted_items e1) = OrderedDict (sorted_items e2))"
proof (intro conjI impI)
  assume a: "discover_attributes_extended fnd cl = Returns attrs"
  show "map fst attrs
        = map (\<lambda>a. format_04x (unat a))
            (sorted_list_of_set (attrid ` set (consumed (attributes_extended_answers cl))))"
    by (rule attributes_sorted(1) [OF a])
  assume "latest attrid (consumed (attributes_extended_answers cl)) a = Some r"
  then show "\<exists>e v. attr_entry_of fnd cl r = Returns e
              \<and> map_of attrs (format_04x (unat a)) = Some (e\<lparr>attribute_value := v\<rparr>)"
    by (rule attributes_sorted(2) [OF a])
next
  assume r: "discover_commands_received cl is_server = Returns received"
  show "map fst received
        = map (\<lambda>c. format_02x (unat c))
            (sorted_list_of_set (set (consumed (commands_received_answers cl))))"
    by (rule received_sorted [OF r])
  show "\<forall>c \<in> set (consumed (commands_received_answers cl)).
           map_of received (format_02x (unat c)) = Some (received_entry cl c)"
    using received_returns [OF r] by (elim conjE)
next
  assume g: "discover_commands_generated cl is_server = Returns generated"
  show "map fst generated
        = map (\<lambda>c. format_02x (unat c))
            (sorted_list_of_set (set (consumed (commands_generated_answers cl))))"
    by (rule generated_sorted [OF g])
  show "\<forall>c \<in> set (consumed (commands_generated_answers cl)).
           map_of generated (format_02x (unat c)) = Some (generated_entry cl c)"
    using generated_returns [OF g] by (elim conjE)
next
  assume "scan_endpoint fnd ep = Returns report"
  then show "\<exists>ins outs.
         report = [(''in_clusters'', ins), (''out_clusters'', outs)]
         \<and> map fst ins = map (\<lambda>c. format_04x (unat c))
                            (sorted_list_of_set (cluster_id ` set (in_clusters ep)))
         \<and> map fst outs = map (\<lambda>c. format_04x (unat c))
                             (sorted_list_of_set (cluster_id ` set (out_clusters ep)))"
    by (rule scan_endpoint_sorted)
next
  assume "set d1 = set d2 \<and> distinct (map fst d1) \<and> distinct (map fst d2)"
  then show "attributes_report d1 = attributes_report d2"
    by (intro attributes_report_same) simp_all
next
  assume "set e1 = set e2 \<and> distinct (map fst e1) \<and> distinct (map fst e2)"
  then have "sorted_items e1 = sorted_items e2" by (intro sorted_items_same) simp_all
  then show "OrderedDict (sorted_items e1) = OrderedDict (sorted_items e2)" by simp
qed

section \<open>The example device is scanned\<close>

lemma on_off_tolerated: "tolerated discovered (read_attributes on_off chunk)"
proof -
  have k: "fst ` set discovered = {0, 1, 2, 3, 4}" by (simp add: discovered_def)
  show ?thesis by (simp add: on_off_def k)
qed

lemma on_off_attributes: "\<exists>attrs. discover_attributes_extended zcl on_off = Returns attrs"
proof -
  obtain r where "snd (read_loop on_off (map fst discovered) discovered) = Returns r"
    using read_loop_returns [of discovered on_off "map fst discovered"] on_off_tolerated by blast
  then show ?thesis by (simp add: discover_attributes_extended_def on_off_discovered)
qed

lemma on_off_received: "\<exists>out. discover_commands_received on_off True = Returns out"
  using received_final [of on_off "[[0x42, 0x01]]" "[0x00]" "[]" True]
  by (simp add: on_off_def) blast

lemma on_off_generated: "\<exists>out. discover_commands_generated on_off True = Returns out"
  using generated_final [of on_off "[]" "[0x00]" "[]" True]
  by (simp add: on_off_def) blast

lemma scan_cluster_returns:
  assumes "discover_attributes_extended fnd cl = Returns attrs"
    and "discover_commands_received cl is_server = Returns received"
    and "discover_commands_generated cl is_server = Returns generated"
  shows "\<exists>report. scan_cluster fnd cl is_server = Returns report"
  by (simp add: scan_cluster_def assms Let_def)

lemma on_off_scan: "\<exists>report. scan_cluster zcl on_off True = Returns report"
  using on_off_attributes on_off_received on_off_generated scan_cluster_returns by blast

lemma groups_attributes: "discover_attributes_extended zcl groups = Returns []"
proof -
  have "snd (paginate (attr_body zcl groups) (attributes_extended_answers groups) (0, []))
        = Returns []"
    by (simp add: groups_def paginate_final_step)
  then show ?thesis
    by (simp add: discover_attributes_extended_def read_loop.simps attributes_report_def
        OrderedDict_def)
qed

lemma groups_received: "discover_commands_received groups True = Returns []"
proof -
  have "snd (paginate (received_body groups) (commands_received_answers groups) (0, []))
        = Returns []"
    by (simp add: groups_def paginate_final_step)
  then show ?thesis
    by (simp add: discover_commands_received_def sorted_items_def OrderedDict_def)
qed

lemma groups_generated: "discover_commands_generated groups True = Returns []"
proof -
  have "snd (paginate (generated_body groups) (commands_generated_answers groups) (0, []))
        = Returns []"
    by (simp add: groups_def paginate_final_step)
  then show ?thesis
    by (simp add: discover_commands_generated_def sorted_items_def OrderedDict_def)
qed

lemma groups_scan: "\<exists>report. scan_cluster zcl groups True = Returns report"
  using groups_attributes groups_received groups_generated scan_cluster_returns by blast

lemma lamp_scan: "\<exists>report. scan_endpoint zcl lamp = Returns report"
proof -
  obtain r1 where r1: "scan_cluster zcl on_off True = Returns r1" using on_off_scan ..
  obtain r2 where r2: "scan_cluster zcl groups True = Returns r2" using groups_scan ..
  show ?thesis by (simp add: scan_endpoint_def lamp_def r1 r2 Let_def)
qed

lemma switch_scan: "\<exists>report. scan_endpoint zcl switch = Returns report"
proof -
  obtain r2 where r2: "scan_cluster zcl groups True = Returns r2" using groups_scan ..
  show ?thesis by (simp add: scan_endpoint_def switch_def r2 Let_def)
qed

lemma format_04x_4: "format_04x 4 = ''0x0004''"
  by (simp add: format_04x_def zero_pad_def format_x.simps hex_digit_def char_of_eq_iff
      numeral_3_eq_3)

lemma format_04x_6: "format_04x 6 = ''0x0006''"
  by (simp add: format_04x_def zero_pad_def format_x.simps hex_digit_def char_of_eq_iff
      numeral_3_eq_3)

lemma lamp_in_keys:
  "map (\<lambda>c. format_04x (unat c)) (sorted_list_of_set (cluster_id ` set (in_clusters lamp)))
   = [''0x0004'', ''0x0006'']"
proof -
  have "cluster_id ` set (in_clusters lamp) = {4, 6}"
    by (auto simp: lamp_def on_off_def groups_def)
  moreover have "sorted_list_of_set {4, 6 :: 16 word} = [4, 6]"
    using sort_distinct_set [of "[4, 6 :: 16 word]"] by simp
  ultimately show ?thesis by (simp add: format_04x_4 format_04x_6)
qed

lemma format_02x_small: "format_02x (Suc 0) = ''0x01''" "format_02x 66 = ''0x42''"
  by (simp_all add: format_02x_def zero_pad_def format_x.simps hex_digit_def char_of_eq_iff)

lemma on_off_attribute_keys:
  "map (\<lambda>a. format_04x (unat a))
     (sorted_list_of_set (attrid ` set (consumed (attributes_extended_answers on_off))))
   = [''0x0000'', ''0x0001'', ''0x0002'', ''0x0003'', ''0x0004'']"
proof -
  have "attrid ` set (consumed (attributes_extended_answers on_off)) = {0, 1, 2, 3, 4}"
    by (simp add: on_off_def more_def final_def attr_def)
  moreover have "sorted_list_of_set {0, 1, 2, 3, 4 :: 16 word} = [0, 1, 2, 3, 4]"
    using sort_distinct_set [of "[0, 1, 2, 3, 4 :: 16 word]"] by simp
  ultimately show ?thesis by (simp add: format_04x_small)
qed

lemma on_off_received_keys:
  "map (\<lambda>c. format_02x (unat c))
     (sorted_list_of_set (set (consumed (commands_received_answers on_off))))
   = [''0x00'', ''0x01'', ''0x42'']"
proof -
  have "set (consumed (commands_received_answers on_off)) = {0x42, 0x01, 0x00}"
    by (simp add: on_off_def more_def final_def)
  moreover have "sorted_list_of_set {0x42, 0x01, 0x00 :: 8 word} = [0x00, 0x01, 0x42]"
    using sort_distinct_set [of "[0x42, 0x01, 0x00 :: 8 word]"] by (simp add: word_le_nat_alt)
  ultimately show ?thesis by (simp add: format_02x_0 format_02x_small)
qed

lemma on_off_generated_keys:
  "map (\<lambda>c. format_02x (unat c))
     (sorted_list_of_set (set (consumed (commands_generated_answers on_off))))
   = [''0x00'']"
  by (simp add: on_off_def final_def format_02x_0)

theorem reports_are_sorted_witness:
  "consumed (attributes_extended_answers on_off) = [attr 0, attr 1, attr 2, attr 3, attr 4]
   \<and> consumed (commands_received_answers on_off) = [0x42, 0x01, 0x00]
   \<and> consumed (commands_generated_answers on_off) = [0x00]
   \<and> latest attrid (consumed (attributes_extended_answers on_off)) 1 = Some (attr 1)
   \<and> (\<exists>attrs. discover_attributes_extended zcl on_off = Returns attrs
      \<and> map fst attrs = [''0x0000'', ''0x0001'', ''0x0002'', ''0x0003'', ''0x0004'']
      \<and> (\<exists>e v. attr_entry_of zcl on_off (attr 1) = Returns e
            \<and> map_of attrs (format_04x (unat (1 :: 16 word)))
                = Some (e\<lparr>attribute_value := v\<rparr>)))
   \<and> (\<exists>received. discover_commands_received on_off True = Returns received
      \<and> map fst received = [''0x00'', ''0x01'', ''0x42'']
      \<and> map_of received (format_02x (unat (0x42 :: 8 word))) = Some (received_entry on_off 0x42))
   \<and> (\<exists>generated. discover_commands_generated on_off True = Returns generated
      \<and> map fst generated = [''0x00'']
      \<and> map_of generated (format_02x (unat (0x00 :: 8 word))) = Some (generated_entry on_off 0x00))
   \<and> (\<exists>ins outs. scan_endpoint zcl lamp = Returns [(''in_clusters'', ins), (''out_clusters'', outs)]
      \<and> map fst ins = [''0x0004'', ''0x0006''])
   \<and> attributes_report [(1, uint8_entry ''0x0001'' ''1''), (0, uint8_entry ''0x0000'' ''on_off'')]
      = attributes_report [(0, uint8_entry ''0x0000'' ''on_off''), (1, uint8_entry ''0x0001'' ''1'')]
   \<and> OrderedDict (sorted_items [(''0x01'', True), (''0x00'', False)])
      = OrderedDict (sorted_items [(''0x00'', False), (''0x01'', True)])"
proof -
  obtain attrs where a: "discover_attributes_extended zcl on_off = Returns attrs"
    using on_off_attributes ..
  obtain received where r: "discover_commands_received on_off True = Returns received"
    using on_off_received ..
  obtain generated where g: "discover_commands_generated on_off True = Returns generated"
    using on_off_generated ..
  obtain report where s: "scan_endpoint zcl lamp = Returns report"
    using lamp_scan ..
  let ?d1 = "[(1 :: 16 word, uint8_entry ''0x0001'' ''1''), (0, uint8_entry ''0x0000'' ''on_off'')]"
  let ?d2 = "[(0 :: 16 word, uint8_entry ''0x0000'' ''on_off''), (1, uint8_entry ''0x0001'' ''1'')]"
  let ?e1 = "[(''0x01'', True), (''0x00'', False)]"
  let ?e2 = "[(''0x00'', False), (''0x01'', True)]"
  have hd: "set ?d1 = set ?d2 \<and> distinct (map fst ?d1) \<and> distinct (map fst ?d2)" by auto
  have he: "set ?e1 = set ?e2 \<and> distinct (map fst ?e1) \<and> distinct (map fst ?e2)" by auto
  have q1: "consumed (attributes_extended_answers on_off) = [attr 0, attr 1, attr 2, attr 3, attr 4]"
    and q2: "consumed (commands_received_answers on_off) = [0x42, 0x01, 0x00]"
    and q3: "consumed (commands_generated_answers on_off) = [0x00]"
    by (simp_all add: on_off_def more_def final_def)
  have q4: "latest attrid (consumed (attributes_extended_answers on_off)) 1 = Some (attr 1)"
    by (simp add: q1 latest_def attr_def)
  have m2: "(0x42 :: 8 word) \<in> set (consumed (commands_received_answers on_off))"
    and m3: "(0x00 :: 8 word) \<in> set (consumed (commands_generated_answers on_off))"
    by (simp_all add: q2 q3)
  note inst = reports_are_sorted [where fnd = zcl and cl = on_off and attrs = attrs
      and a = 1 and r = "attr 1" and is_server = True and received = received and generated = generated
      and ep = lamp and report = report and ?d1.0 = ?d1 and ?d2.0 = ?d2
      and ?e1.0 = ?e1 and ?e2.0 = ?e2]
  note c1 = inst [THEN conjunct1, THEN mp, OF a, THEN conjunct1]
  note c2 = inst [THEN conjunct2, THEN conjunct1, THEN mp, OF r, THEN conjunct1]
  note c3 = inst [THEN conjunct2, THEN conjunct2, THEN conjunct1, THEN mp, OF g, THEN conjunct1]
  note v1 = inst [THEN conjunct1, THEN mp, OF a, THEN conjunct2, THEN mp, OF q4]
  note v2 = inst [THEN conjunct2, THEN conjunct1, THEN mp, OF r, THEN conjunct2,
      THEN bspec, OF m2]
  note v3 = inst [THEN conjunct2, THEN conjunct2, THEN conjunct1, THEN mp, OF g, THEN conjunct2,
      THEN bspec, OF m3]
  note c4 = inst [THEN conjunct2, THEN conjunct2, THEN conjunct2, THEN conjunct1, THEN mp, OF s]
  note c5 = inst [THEN conjunct2, THEN conjunct2, THEN conjunct2, THEN conjunct2,
      THEN conjunct1, THEN mp, OF hd]
  note c6 = inst [THEN conjunct2, THEN conjunct2, THEN conjunct2, THEN conjunct2,
      THEN conjunct2, THEN mp, OF he]
  from c4 obtain ins outs where
    rep: "report = [(''in_clusters'', ins), (''out_clusters'', outs)]"
    and k: "map fst ins = map (\<lambda>c. format_04x (unat c))
                           (sorted_list_of_set (cluster_id ` set (in_clusters lamp)))"
    by (elim exE conjE)
  have k': "map fst ins = [''0x0004'', ''0x0006'']" using k lamp_in_keys by simp
  have p4: "\<exists>ins outs. scan_endpoint zcl lamp
                = Returns [(''in_clusters'', ins), (''out_clusters'', outs)]
              \<and> map fst ins = [''0x0004'', ''0x0006'']"
    using s rep k' by (intro exI [of _ ins] exI [of _ outs] conjI) simp_all
  have k1: "map fst attrs = [''0x0000'', ''0x0001'', ''0x0002'', ''0x0003'', ''0x0004'']"
    using c1 by (simp only: on_off_attribute_keys)
  have k2: "map fst received = [''0x00'', ''0x01'', ''0x42'']"
    using c2 by (simp only: on_off_received_keys)
  have k3: "map fst generated = [''0x00'']"
    using c3 by (simp only: on_off_generated_keys)
  have p1: "\<exists>attrs. discover_attributes_extended zcl on_off = Returns attrs
      \<and> map fst attrs = [''0x0000'', ''0x0001'', ''0x0002'', ''0x0003'', ''0x0004'']
      \<and> (\<exists>e v. attr_entry_of zcl on_off (attr 1) = Returns e
            \<and> map_of attrs (format_04x (unat (1 :: 16 word)))
                = Some (e\<lparr>attribute_value := v\<rparr>))"
    by (rule exI [of _ attrs]) (rule conjI [OF a conjI [OF k1 v1]])
  have p2: "\<exists>received. discover_commands_received on_off True = Returns received
      \<and> map fst received = [''0x00'', ''0x01'', ''0x42'']
      \<and> map_of received (format_02x (unat (0x42 :: 8 word))) = Some (received_entry on_off 0x42)"
    by (rule exI [of _ received]) (rule conjI [OF r conjI [OF k2 v2]])
  have p3: "\<exists>generated. discover_commands_generated on_off True = Returns generated
      \<and> map fst generated = [''0x00'']
      \<and> map_of generated (format_02x (unat (0x00 :: 8 word))) = Some (generated_entry on_off 0x00)"
    by (rule exI [of _ generated]) (rule conjI [OF g conjI [OF k3 v3]])
  show ?thesis using q1 q2 q3 q4 p1 p2 p3 p4 c5 c6 by (intro conjI)
qed

section \<open>The report of an endpoint and of a device\<close>

lemma scan_cluster_server:
  "scan_cluster fnd cl True = Returns report \<Longrightarrow>
   \<exists>attrs received generated.
     discover_attributes_extended fnd cl = Returns attrs
     \<and> discover_commands_received cl True = Returns received
     \<and> discover_commands_generated cl True = Returns generated
     \<and> report = server_report cl attrs received generated"
  by (auto simp: scan_cluster_def and_then_Returns OrderedDict_distinct server_report_def)

text \<open>What the other branch of \<^const>\<open>scan_cluster\<close> would write: the two names change places.\<close>

lemma scan_cluster_client:
  "scan_cluster fnd cl False = Returns report \<Longrightarrow>
   \<exists>attrs received generated.
     discover_attributes_extended fnd cl = Returns attrs
     \<and> discover_commands_received cl False = Returns received
     \<and> discover_commands_generated cl False = Returns generated
     \<and> report = [(''cluster_id'', CStr (format_04x (unat (cluster_id cl)))),
                  (''name'', CStr (ep_attribute cl)),
                  (''attributes'', CAttrs attrs),
                  (''commands_generated'', CCmds received),
                  (''commands_received'', CCmds generated)]"
  by (auto simp: scan_cluster_def and_then_Returns OrderedDict_distinct)

lemma set_setitem: "set (setitem d k v) \<subseteq> insert (k, v) (set d)"
  unfolding setitem_def by (induction d) auto

lemma scan_clusters_reports:
  "scan_clusters fnd is_server cls acc = Returns d \<Longrightarrow> (k, r) \<in> set d \<Longrightarrow>
   (k, r) \<in> set acc \<or> (\<exists>cl \<in> set cls. scan_cluster fnd cl is_server = Returns r)"
proof (induction cls arbitrary: acc)
  case Nil
  then show ?case by simp
next
  case (Cons cl cls)
  from Cons.prems(1) obtain report where
    c: "scan_cluster fnd cl is_server = Returns report"
    and s: "scan_clusters fnd is_server cls
          (setitem acc (format_04x (unat (cluster_id cl))) report) = Returns d"
    by (auto simp: and_then_Returns)
  from Cons.IH [OF s Cons.prems(2)] show ?case
  proof
    assume "(k, r) \<in> set (setitem acc (format_04x (unat (cluster_id cl))) report)"
    then have "(k, r) = (format_04x (unat (cluster_id cl)), report) \<or> (k, r) \<in> set acc"
      using set_setitem [of acc "format_04x (unat (cluster_id cl))" report] by auto
    then show ?thesis using c by auto
  next
    assume "\<exists>cl \<in> set cls. scan_cluster fnd cl is_server = Returns r"
    then show ?thesis by auto
  qed
qed

lemma scan_endpoint_reports:
  assumes "scan_endpoint fnd ep = Returns report"
  shows "\<exists>ins outs.
           report = [(''in_clusters'', ins), (''out_clusters'', outs)]
           \<and> (\<forall>kr \<in> set ins. \<exists>cl \<in> set (in_clusters ep).
                 scan_cluster fnd cl True = Returns (snd kr))
           \<and> (\<forall>kr \<in> set outs. \<exists>cl \<in> set (out_clusters ep).
                 scan_cluster fnd cl True = Returns (snd kr))"
proof -
  from assms obtain ci co where
    i: "scan_clusters fnd True (in_clusters ep) [] = Returns ci"
    and o: "scan_clusters fnd True (out_clusters ep) [] = Returns co"
    and r: "report = setitem (setitem [] ''in_clusters'' (OrderedDict (sorted_items ci)))
                       ''out_clusters'' (OrderedDict (sorted_items co))"
    by (auto simp: scan_endpoint_def and_then_Returns Let_def)
  have di: "distinct (map fst ci)" and "distinct (map fst co)"
    using scan_clusters_keys [OF i] scan_clusters_keys [OF o] by simp_all
  then have si: "set (OrderedDict (sorted_items ci)) = set ci"
    and so: "set (OrderedDict (sorted_items co)) = set co"
    by (simp_all add: sorted_dict_set)
  have pi: "\<forall>kr \<in> set (OrderedDict (sorted_items ci)). \<exists>cl \<in> set (in_clusters ep).
              scan_cluster fnd cl True = Returns (snd kr)"
    using scan_clusters_reports [OF i] by (auto simp: si)
  have po: "\<forall>kr \<in> set (OrderedDict (sorted_items co)). \<exists>cl \<in> set (out_clusters ep).
              scan_cluster fnd cl True = Returns (snd kr)"
    using scan_clusters_reports [OF o] by (auto simp: so)
  have "report = [(''in_clusters'', OrderedDict (sorted_items ci)),
                  (''out_clusters'', OrderedDict (sorted_items co))]"
    by (simp add: r setitem_def)
  then show ?thesis using pi po
    by (intro exI [of _ "OrderedDict (sorted_items ci)"]
        exI [of _ "OrderedDict (sorted_items co)"] conjI)
qed

text \<open>
  Claim C9. In the report of an endpoint every cluster report, of an input cluster and of an
  output cluster alike, is what \<^verbatim>\<open>scan_cluster\<close> returns for a cluster of the endpoint
  with \<^verbatim>\<open>is_server=True\<close>: its keys are \<^verbatim>\<open>cluster_id\<close>, \<^verbatim>\<open>name\<close>,
  \<^verbatim>\<open>attributes\<close>, \<^verbatim>\<open>commands_received\<close> and \<^verbatim>\<open>commands_generated\<close>, with the result
  of \<^verbatim>\<open>discover_commands_received\<close> under \<^verbatim>\<open>commands_received\<close> and the result of
  \<^verbatim>\<open>discover_commands_generated\<close> under \<^verbatim>\<open>commands_generated\<close>.
\<close>

theorem clusters_scanned_as_server:
  "scan_endpoint fnd ep = Returns report \<longrightarrow>
     (\<exists>ins outs.
        report = [(''in_clusters'', ins), (''out_clusters'', outs)]
        \<and> (\<forall>kr \<in> set ins. \<exists>cl attrs received generated.
              cl \<in> set (in_clusters ep)
              \<and> scan_cluster fnd cl True = Returns (snd kr)
              \<and> discover_attributes_extended fnd cl = Returns attrs
              \<and> discover_commands_received cl True = Returns received
              \<and> discover_commands_generated cl True = Returns generated
              \<and> snd kr = server_report cl attrs received generated)
        \<and> (\<forall>kr \<in> set outs. \<exists>cl attrs received generated.
              cl \<in> set (out_clusters ep)
              \<and> scan_cluster fnd cl True = Returns (snd kr)
              \<and> discover_attributes_extended fnd cl = Returns attrs
              \<and> discover_commands_received cl True = Returns received
              \<and> discover_commands_generated cl True = Returns generated
              \<and> snd kr = server_report cl attrs received generated))"
proof
  assume "scan_endpoint fnd ep = Returns report"
  then obtain ins outs where
    r: "report = [(''in_clusters'', ins), (''out_clusters'', outs)]"
    and i: "\<forall>kr \<in> set ins. \<exists>cl \<in> set (in_clusters ep).
              scan_cluster fnd cl True = Returns (snd kr)"
    and o: "\<forall>kr \<in> set outs. \<exists>cl \<in> set (out_clusters ep).
              scan_cluster fnd cl True = Returns (snd kr)"
    using scan_endpoint_reports by blast
  have i': "\<forall>kr \<in> set ins. \<exists>cl attrs received generated.
              cl \<in> set (in_clusters ep)
              \<and> scan_cluster fnd cl True = Returns (snd kr)
              \<and> discover_attributes_extended fnd cl = Returns attrs
              \<and> discover_commands_received cl True = Returns received
              \<and> discover_commands_generated cl True = Returns generated
              \<and> snd kr = server_report cl attrs received generated"
  proof
    fix kr assume "kr \<in> set ins"
    with i obtain cl where cl: "cl \<in> set (in_clusters ep)"
      and s: "scan_cluster fnd cl True = Returns (snd kr)" by blast
    from scan_cluster_server [OF s] cl s
    show "\<exists>cl attrs received generated.
              cl \<in> set (in_clusters ep)
              \<and> scan_cluster fnd cl True = Returns (snd kr)
              \<and> discover_attributes_extended fnd cl = Returns attrs
              \<and> discover_commands_received cl True = Returns received
              \<and> discover_commands_generated cl True = Returns generated
              \<and> snd kr = server_report cl attrs received generated"
      by (elim exE conjE) (intro exI conjI)
  qed
  have o': "\<forall>kr \<in> set outs. \<exists>cl attrs received generated.
              cl \<in> set (out_clusters ep)
              \<and> scan_cluster fnd cl True = Returns (snd kr)
              \<and> discover_attributes_extended fnd cl = Returns attrs
              \<and> discover_commands_received cl True = Returns received
              \<and> discover_commands_generated cl True = Returns generated
              \<and> snd kr = server_report cl attrs received generated"
  proof
    fix kr assume "kr \<in> set outs"
    with o obtain cl where cl: "cl \<in> set (out_clusters ep)"
      and s: "scan_cluster fnd cl True = Returns (snd kr)" by blast
    from scan_cluster_server [OF s] cl s
    show "\<exists>cl attrs received generated.
              cl \<in> set (out_clusters ep)
              \<and> scan_cluster fnd cl True = Returns (snd kr)
              \<and> discover_attributes_extended fnd cl = Returns attrs
              \<and> discover_commands_received cl True = Returns received
              \<and> discover_commands_generated cl True = Returns generated
              \<and> snd kr = server_report cl attrs received generated"
      by (elim exE conjE) (intro exI conjI)
  qed
  show "\<exists>ins outs.
        report = [(''in_clusters'', ins), (''out_clusters'', outs)]
        \<and> (\<forall>kr \<in> set ins. \<exists>cl attrs received generated.
              cl \<in> set (in_clusters ep)
              \<and> scan_cluster fnd cl True = Returns (snd kr)
              \<and> discover_attributes_extended fnd cl = Returns attrs
              \<and> discover_commands_received cl True = Returns received
              \<and> discover_commands_generated cl True = Returns generated
              \<and> snd kr = server_report cl attrs received generated)
        \<and> (\<forall>kr \<in> set outs. \<exists>cl attrs received generated.
              cl \<in> set (out_clusters ep)
              \<and> scan_cluster fnd cl True = Returns (snd kr)
              \<and> discover_attributes_extended fnd cl = Returns attrs
              \<and> discover_commands_received cl True = Returns received
              \<and> discover_commands_generated cl True = Returns generated
              \<and> snd kr = server_report cl attrs received generated)"
    using r i' o' by (intro exI [of _ ins] exI [of _ outs] conjI)
qed

lemma server_report_keys:
  "map fst (server_report cl attrs received generated)
   = [''cluster_id'', ''name'', ''attributes'', ''commands_received'', ''commands_generated'']"
  by (simp add: server_report_def)

theorem clusters_scanned_as_server_witness:
  "\<exists>ins outs.
     scan_endpoint zcl lamp = Returns [(''in_clusters'', ins), (''out_clusters'', outs)]
     \<and> length ins = 2 \<and> length outs = 1
     \<and> (\<forall>kr \<in> set ins. map fst (snd kr)
           = [''cluster_id'', ''name'', ''attributes'', ''commands_received'',
              ''commands_generated''])
     \<and> (\<forall>kr \<in> set outs. map fst (snd kr)
           = [''cluster_id'', ''name'', ''attributes'', ''commands_received'',
              ''commands_generated''])"
proof -
  obtain report where s: "scan_endpoint zcl lamp = Returns report"
    using lamp_scan ..
  from clusters_scanned_as_server [of zcl lamp report, THEN mp, OF s]
  obtain ins outs where
    r: "report = [(''in_clusters'', ins), (''out_clusters'', outs)]"
    and i: "\<forall>kr \<in> set ins. \<exists>cl attrs received generated.
              cl \<in> set (in_clusters lamp)
              \<and> scan_cluster zcl cl True = Returns (snd kr)
              \<and> discover_attributes_extended zcl cl = Returns attrs
              \<and> discover_commands_received cl True = Returns received
              \<and> discover_commands_generated cl True = Returns generated
              \<and> snd kr = server_report cl attrs received generated"
    and o: "\<forall>kr \<in> set outs. \<exists>cl attrs received generated.
              cl \<in> set (out_clusters lamp)
              \<and> scan_cluster zcl cl True = Returns (snd kr)
              \<and> discover_attributes_extended zcl cl = Returns attrs
              \<and> discover_commands_received cl True = Returns received
              \<and> discover_commands_generated cl True = Returns generated
              \<and> snd kr = server_report cl attrs received generated"
    by (elim exE conjE)
  from scan_endpoint_sorted [OF s] r
  have ki: "map fst ins = map (\<lambda>c. format_04x (unat c))
                            (sorted_list_of_set (cluster_id ` set (in_clusters lamp)))"
    and ko: "map fst outs = map (\<lambda>c. format_04x (unat c))
                             (sorted_list_of_set (cluster_id ` set (out_clusters lamp)))"
    by auto
  have "map fst ins = [''0x0004'', ''0x0006'']" using ki lamp_in_keys by simp
  then have li: "length ins = 2" by (metis length_map length_Cons list.size(3) numeral_2_eq_2)
  have "cluster_id ` set (out_clusters lamp) = {4}" by (simp add: lamp_def groups_def)
  then have "length (map fst outs) = 1" using ko by simp
  then have lo: "length outs = 1" by simp
  have ki': "\<forall>kr \<in> set ins. map fst (snd kr)
           = [''cluster_id'', ''name'', ''attributes'', ''commands_received'',
              ''commands_generated'']"
  proof
    fix kr assume "kr \<in> set ins"
    with i obtain cl attrs received generated
      where "snd kr = server_report cl attrs received generated"
      by blast
    then show "map fst (snd kr)
           = [''cluster_id'', ''name'', ''attributes'', ''commands_received'',
              ''commands_generated'']"
      by (simp only: server_report_keys)
  qed
  have ko': "\<forall>kr \<in> set outs. map fst (snd kr)
           = [''cluster_id'', ''name'', ''attributes'', ''commands_received'',
              ''commands_generated'']"
  proof
    fix kr assume "kr \<in> set outs"
    with o obtain cl attrs received generated
      where "snd kr = server_report cl attrs received generated"
      by blast
    then show "map fst (snd kr)
           = [''cluster_id'', ''name'', ''attributes'', ''commands_received'',
              ''commands_generated'']"
      by (simp only: server_report_keys)
  qed
  show ?thesis
    using s [unfolded r] li lo ki' ko' by (intro exI [of _ ins] exI [of _ outs] conjI)
qed

section \<open>Model and manufacturer\<close>

lemma map_of_setitem_other: "k' \<noteq> k \<Longrightarrow> map_of (setitem d k v) k' = map_of d k'"
  by (simp add: map_of_setitem)

lemma scan_endpoints_model:
  "scan_endpoints fnd items (result, eps) = Returns (result', eps') \<Longrightarrow>
   (filter (\<lambda>item. fst item \<noteq> 0) items = [] \<longrightarrow> result' = result)
   \<and> (filter (\<lambda>item. fst item \<noteq> 0) items \<noteq> [] \<longrightarrow>
        map_of result' ''model''
          = Some (DOpt (model (snd (last (filter (\<lambda>item. fst item \<noteq> 0) items)))))
        \<and> map_of result' ''manufacturer''
          = Some (DOpt (manufacturer (snd (last (filter (\<lambda>item. fst item \<noteq> 0) items))))))"
proof (induction items arbitrary: result eps)
  case Nil
  then show ?case by simp
next
  case (Cons item items)
  obtain epid ep where item: "item = (epid, ep)" by (cases item)
  let ?nz = "filter (\<lambda>item. fst item \<noteq> 0) items"
  show ?case
  proof (cases "epid = 0")
    case True
    then have "scan_endpoints fnd items (result, eps) = Returns (result', eps')"
      using Cons.prems item by simp
    from Cons.IH [OF this] show ?thesis using True item by simp
  next
    case False
    let ?r = "setitem (setitem result ''model'' (DOpt (model ep))) ''manufacturer''
                (DOpt (manufacturer ep))"
    from Cons.prems item False obtain eps1 where
      s: "scan_endpoints fnd items (?r, eps1) = Returns (result', eps')"
      by (auto simp: and_then_Returns Let_def)
    have m: "map_of ?r ''model'' = Some (DOpt (model ep))"
      by (simp add: map_of_setitem)
    have f: "map_of ?r ''manufacturer'' = Some (DOpt (manufacturer ep))"
      by (simp add: map_of_setitem)
    show ?thesis
    proof (cases "?nz = []")
      case True
      then have "result' = ?r" using Cons.IH [OF s] by simp
      then show ?thesis using True False item m f by simp
    next
      case nz: False
      then show ?thesis using Cons.IH [OF s] False item by simp
    qed
  qed
qed

text \<open>
  Claim C10. In the report of a device that has an endpoint other than 0, \<^verbatim>\<open>model\<close> and
  \<^verbatim>\<open>manufacturer\<close> are those of the last such endpoint in the order of the device's
  dictionary; the report of a device that has none has neither key.
\<close>

theorem model_of_last_endpoint:
  "scan_results fnd dev = Returns report \<longrightarrow>
     (scanned_endpoints dev \<noteq> [] \<longrightarrow>
        map_of report ''model'' = Some (DOpt (model (snd (last (scanned_endpoints dev)))))
        \<and> map_of report ''manufacturer''
            = Some (DOpt (manufacturer (snd (last (scanned_endpoints dev))))))
     \<and> (scanned_endpoints dev = [] \<longrightarrow>
        ''model'' \<notin> fst ` set report \<and> ''manufacturer'' \<notin> fst ` set report)"
proof
  assume "scan_results fnd dev = Returns report"
  then obtain result eps where
    s: "scan_endpoints fnd (endpoints dev)
          (OrderedDict [(''ieee'', DStr (ieee dev)), (''nwk'', DStr (format_04x (unat (nwk dev))))],
           []) = Returns (result, eps)"
    and r: "report = setitem result ''endpoints'' (DEndpoints eps)"
    by (auto simp: scan_results_def and_then_Returns Let_def)
  note m = scan_endpoints_model [OF s]
  show "(scanned_endpoints dev \<noteq> [] \<longrightarrow>
        map_of report ''model'' = Some (DOpt (model (snd (last (scanned_endpoints dev)))))
        \<and> map_of report ''manufacturer''
            = Some (DOpt (manufacturer (snd (last (scanned_endpoints dev))))))
     \<and> (scanned_endpoints dev = [] \<longrightarrow>
        ''model'' \<notin> fst ` set report \<and> ''manufacturer'' \<notin> fst ` set report)"
  proof (intro conjI impI)
    assume nz: "scanned_endpoints dev \<noteq> []"
    then show "map_of report ''model''
               = Some (DOpt (model (snd (last (scanned_endpoints dev)))))"
      using m by (simp add: r map_of_setitem scanned_endpoints_def)
    show "map_of report ''manufacturer''
          = Some (DOpt (manufacturer (snd (last (scanned_endpoints dev)))))"
      using m nz by (simp add: r map_of_setitem scanned_endpoints_def)
  next
    assume "scanned_endpoints dev = []"
    then have "result = OrderedDict
        [(''ieee'', DStr (ieee dev)), (''nwk'', DStr (format_04x (unat (nwk dev))))]"
      using m by (simp add: scanned_endpoints_def)
    then have "fst ` set report = {''ieee'', ''nwk'', ''endpoints''}"
      by (auto simp: r keys_setitem OrderedDict_distinct)
    then show "''model'' \<notin> fst ` set report" and "''manufacturer'' \<notin> fst ` set report"
      by simp_all
  qed
qed

lemma fixture_scan: "\<exists>report. scan_results zcl fixture = Returns report"
proof -
  obtain r1 where r1: "scan_endpoint zcl lamp = Returns r1" using lamp_scan ..
  obtain r2 where r2: "scan_endpoint zcl switch = Returns r2" using switch_scan ..
  show ?thesis by (simp add: scan_results_def fixture_def r1 r2 Let_def)
qed

lemma bare_scan: "\<exists>report. scan_results zcl bare = Returns report"
  by (simp add: scan_results_def bare_def Let_def)

theorem model_of_last_endpoint_witness:
  "(\<exists>report. scan_results zcl fixture = Returns report
      \<and> scanned_endpoints fixture \<noteq> []
      \<and> map_of report ''model'' = Some (DOpt (Some ''switch''))
      \<and> map_of report ''manufacturer'' = Some (DOpt None))
   \<and> (\<exists>report. scan_results zcl bare = Returns report
      \<and> scanned_endpoints bare = []
      \<and> ''model'' \<notin> fst ` set report \<and> ''manufacturer'' \<notin> fst ` set report)"
proof -
  obtain rf where f: "scan_results zcl fixture = Returns rf" using fixture_scan ..
  obtain rb where b: "scan_results zcl bare = Returns rb" using bare_scan ..
  have nf: "scanned_endpoints fixture \<noteq> []"
    and lf: "snd (last (scanned_endpoints fixture)) = switch"
    by (simp_all add: scanned_endpoints_def fixture_def)
  have nb: "scanned_endpoints bare = []"
    by (simp add: scanned_endpoints_def bare_def)
  note cf = model_of_last_endpoint [of zcl fixture rf, THEN mp, OF f, THEN conjunct1, THEN mp, OF nf]
  note cb = model_of_last_endpoint [of zcl bare rb, THEN mp, OF b, THEN conjunct2, THEN mp, OF nb]
  have m: "map_of rf ''model'' = Some (DOpt (Some ''switch''))"
    using cf [THEN conjunct1] by (simp add: lf switch_def)
  have u: "map_of rf ''manufacturer'' = Some (DOpt None)"
    using cf [THEN conjunct2] by (simp add: lf switch_def)
  have p1: "\<exists>report. scan_results zcl fixture = Returns report
      \<and> scanned_endpoints fixture \<noteq> []
      \<and> map_of report ''model'' = Some (DOpt (Some ''switch''))
      \<and> map_of report ''manufacturer'' = Some (DOpt None)"
    using f nf m u by (intro exI [of _ rf] conjI)
  have p2: "\<exists>report. scan_results zcl bare = Returns report
      \<and> scanned_endpoints bare = []
      \<and> ''model'' \<notin> fst ` set report \<and> ''manufacturer'' \<notin> fst ` set report"
    using b nb cb [THEN conjunct1] cb [THEN conjunct2] by (intro exI [of _ rb] conjI)
  show ?thesis using p1 p2 by (intro conjI)
qed

section \<open>The example end to end\<close>

lemma fresh_entry_has_no_value:
  "attr_entry_of fnd cl r = Returns e \<Longrightarrow> attribute_value e = None"
  by (auto simp: attr_entry_of_def Let_def and_then_Returns)

text \<open>
  Five attributes are discovered in two pages, the first four are read, the read of the
  fifth fails with a delivery error: the report has five entries in the order of their ids,
  four of them with a value, the byte string among them decoded.
\<close>

lemma on_off_attribute_values:
  "\<exists>attrs. discover_attributes_extended zcl on_off = Returns attrs
     \<and> map (\<lambda>kv. (fst kv, attribute_value (snd kv))) attrs
       = [(''0x0000'', Some (Number 1)), (''0x0001'', Some (Text [0x6f, 0x6e])),
          (''0x0002'', Some (Number 0)), (''0x0003'', Some (Number 0)), (''0x0004'', None)]"
proof -
  let ?e0 = "uint8_entry ''0x0000'' ''on_off''" and ?e1 = "uint8_entry ''0x0001'' ''1''"
    and ?e2 = "uint8_entry ''0x0002'' ''2''" and ?e3 = "uint8_entry ''0x0003'' ''3''"
    and ?e4 = "uint8_entry ''0x0004'' ''4''"
  let ?r = "[(0, ?e0\<lparr>attribute_value := Some (Number 1)\<rparr>),
             (1, ?e1\<lparr>attribute_value := Some (Text [0x6f, 0x6e])\<rparr>),
             (2, ?e2\<lparr>attribute_value := Some (Number 0)\<rparr>),
             (3, ?e3\<lparr>attribute_value := Some (Number 0)\<rparr>),
             (4, ?e4)]"
  have v: "decode_value (Bytes [0x6f, 0x6e, 0x00, 0xff]) = Text [0x6f, 0x6e]"
    by (simp add: split0_head_def strip_def isspace_def)
  have n: "\<And>i. decode_value (Number i) = Number i" by simp
  have r1: "read_attributes on_off [0, 1, 2, 3]
            = Answer ([(0, Number 1), (1, Bytes [0x6f, 0x6e, 0x00, 0xff]),
                       (2, Number 0), (3, Number 0)], [])"
    and r2: "read_attributes on_off [4] = Fails DeliveryError"
    by (simp_all add: on_off_def)
  have s: "store_values [(0, Number 1), (1, Bytes [0x6f, 0x6e, 0x00, 0xff]),
                         (2, Number 0), (3, Number 0)] discovered = Returns ?r"
    by (simp add: discovered_def setitem_def v n del: decode_value.simps)
  have r: "snd (read_loop on_off [0, 1, 2, 3, 4] discovered) = Returns ?r"
    by (simp add: read_loop.simps [of on_off "[0, 1, 2, 3, 4]"] read_loop.simps [of on_off "[4]"]
        read_loop.simps [of on_off "[]"] r1 r2 s del: store_values.simps)
  have t: "attributes_report ?r
           = [(''0x0000'', ?e0\<lparr>attribute_value := Some (Number 1)\<rparr>),
              (''0x0001'', ?e1\<lparr>attribute_value := Some (Text [0x6f, 0x6e])\<rparr>),
              (''0x0002'', ?e2\<lparr>attribute_value := Some (Number 0)\<rparr>),
              (''0x0003'', ?e3\<lparr>attribute_value := Some (Number 0)\<rparr>),
              (''0x0004'', ?e4)]"
    by (simp add: attributes_report_def OrderedDict_def setitem_def format_04x_small)
  have d: "discover_attributes_extended zcl on_off = Returns (attributes_report ?r)"
    by (simp only: discover_attributes_extended_def on_off_discovered discovered_keys r
        and_then.simps)
  have m: "map (\<lambda>kv. (fst kv, attribute_value (snd kv))) (attributes_report ?r)
        = [(''0x0000'', Some (Number 1)), (''0x0001'', Some (Text [0x6f, 0x6e])),
           (''0x0002'', Some (Number 0)), (''0x0003'', Some (Number 0)), (''0x0004'', None)]"
    unfolding t by (simp add: uint8_entry_def)
  show ?thesis by (rule exI [of _ "attributes_report ?r"]) (rule conjI [OF d m])
qed

end
